theory Spec2Isabelle
  imports Main "HOL-Library.Word" "HOL-Library.Log_Nat" "HOL-Library.Multiset"
begin

unbundle bit_operations_syntax

section \<open>The h64 flat hash table\<close>

text \<open>
  A shallow embedding of \<^verbatim>\<open>source/h64.c\<close>, \<^verbatim>\<open>include/h64/h64.h\<close> and the helpers
  of \<^verbatim>\<open>utils.h\<close>.

  \<^item> \<^verbatim>\<open>uint8_t\<close> and \<^verbatim>\<open>uint64_t\<close> values whose bits matter (status bytes, hints, hashes,
    seeds, the probe sequence, \<^verbatim>\<open>roundup_to_pow2\<close>, \<^verbatim>\<open>mixer64\<close>) are machine words.
  \<^item> An entry is a \<^verbatim>\<open>void *\<close>: a 64-bit word, \<^verbatim>\<open>NULL\<close> being 0.
  \<^item> The \<^verbatim>\<open>size_t\<close> fields \<^verbatim>\<open>count\<close> and \<^verbatim>\<open>size_in_groups\<close> and the slot indices are
    natural numbers, and the \<^verbatim>\<open>size_t\<close> arithmetic on them has its wrap-around at
    \<open>2 ^ 64\<close> written out: the byte count \<^verbatim>\<open>size * sizeof(*groups)\<close> of \<^verbatim>\<open>h64_init\<close>, the
    products \<^verbatim>\<open>size_in_groups * GROUP_ENTRIES\<close> of the load checks, the doubling of
    \<^verbatim>\<open>h64_grow_up\<close>, \<^verbatim>\<open>h->count += 1\<close> and \<^verbatim>\<open>h->count -= 1\<close>.
  \<^item> The field \<^verbatim>\<open>groups\<close> is the array that was allocated, a list of as many groups as
    the block has room for. It is shorter than \<^verbatim>\<open>size_in_groups\<close> when the byte count
    has wrapped around. Reading a group beyond the block is undefined behaviour in C;
    here it is the error \<open>Out_of_bounds\<close>. Converting a double beyond the range of
    \<^verbatim>\<open>size_t\<close> is undefined too; here it is the error \<open>Out_of_range\<close>.
  \<^item> The \<^verbatim>\<open>double\<close> arithmetic of the load-factor checks is modelled exactly: a
    non-negative double is a pair of a mantissa and a binary exponent, and every
    operation rounds to nearest, ties to even, at 53 bits.
  \<^item> The heap is the list of the addresses the next allocations return; an exhausted
    list or a null address is a failed allocation.
  \<^item> A failed \<^verbatim>\<open>assert\<close> is an error value; a loop that does not end is the value
    \<open>None\<close>. The result of an operation is \<open>None\<close> when it does not return,
    \<open>Some (Inl e)\<close> when it stops with the error \<open>e\<close>, \<open>Some (Inr x)\<close> when it returns \<open>x\<close>.
  \<^item> The statistics counters (\<^verbatim>\<open>H64_STORE_STATISTICS\<close>) and the prefetch have no effect on
    the table and are left out.
\<close>

subsection \<open>Constants\<close>

type_synonym ptr = "64 word"

definition NULL :: ptr where
  "NULL = 0"

definition DEFAULT_SIZE :: nat where
  "DEFAULT_SIZE = 4"

definition MIN_SIZE :: nat where
  "MIN_SIZE = DEFAULT_SIZE"

definition GROUP_ENTRIES :: nat where
  "GROUP_ENTRIES = 7"

definition ENTRIES_MASK :: "8 word" where
  "ENTRIES_MASK = 0x7F"

datatype h64_error = Assertion_failed | Allocation_failed | Out_of_bounds | Out_of_range

subsection \<open>Helpers of utils.h\<close>

definition mixer64 :: "64 word \<Rightarrow> 64 word" where
  "mixer64 n0 =
     (let z = 0x9FB21C651E98DF25;
          n1 = n0 XOR ((push_bit 49 n0 OR drop_bit 15 n0) XOR (push_bit 24 n0 OR drop_bit 40 n0));
          n2 = n1 * z;
          n3 = n2 XOR drop_bit 35 n2;
          n4 = n3 * z
      in n4 XOR drop_bit 28 n4)"

definition roundup_to_pow2 :: "64 word \<Rightarrow> 64 word" where
  "roundup_to_pow2 n0 =
     (let n1 = n0 - 1;
          n2 = n1 OR drop_bit 1 n1;
          n3 = n2 OR drop_bit 2 n2;
          n4 = n3 OR drop_bit 4 n3;
          n5 = n4 OR drop_bit 8 n4;
          n6 = n5 OR drop_bit 16 n5;
          n7 = n6 OR drop_bit 32 n6
      in n7 + 1)"

definition is_power_of_2 :: "nat \<Rightarrow> bool" where
  "is_power_of_2 n = (n AND (n - 1) = 0)"

text \<open>
  \<^verbatim>\<open>__builtin_ctz\<close>: the number of trailing zero bits. (The builtin is undefined at 0;
  here it is the width.)
\<close>

definition ctz :: "'a::len word \<Rightarrow> nat" where
  "ctz w = length (takeWhile (\<lambda>n. \<not> bit w n) [0..<LENGTH('a)])"

subsection \<open>Groups\<close>

record h64_group =
  status :: "8 word"
  hints :: "8 word list"
  entries :: "ptr list"

definition group_was_full :: "h64_group \<Rightarrow> bool" where
  "group_was_full g = (drop_bit 7 (status g) \<noteq> 0)"

definition group_is_full :: "h64_group \<Rightarrow> bool" where
  "group_is_full g = (status g AND ENTRIES_MASK = ENTRIES_MASK)"

definition group_insert :: "h64_group \<Rightarrow> ptr \<Rightarrow> 8 word \<Rightarrow> nat \<Rightarrow> h64_error + h64_group" where
  "group_insert g entry hint idx =
     (if \<not> idx < GROUP_ENTRIES then Inl Assertion_failed
      else if entries g ! idx \<noteq> NULL then Inl Assertion_failed
      else if drop_bit idx (status g) AND 1 \<noteq> 0 then Inl Assertion_failed
      else
        let g1 = g\<lparr>entries := (entries g)[idx := entry],
                   hints := (hints g)[idx := hint],
                   status := status g OR push_bit idx 1\<rparr>
        in Inr (if group_is_full g1 then g1\<lparr>status := 0xFF\<rparr> else g1))"

definition group_update :: "h64_group \<Rightarrow> ptr \<Rightarrow> nat \<Rightarrow> h64_error + h64_group" where
  "group_update g entry idx =
     (if \<not> idx < GROUP_ENTRIES then Inl Assertion_failed
      else if drop_bit idx (status g) AND 1 \<noteq> 1 then Inl Assertion_failed
      else Inr (g\<lparr>entries := (entries g)[idx := entry]\<rparr>))"

text \<open>The erased entry is returned with the new group.\<close>

definition group_erase_entry :: "h64_group \<Rightarrow> nat \<Rightarrow> h64_error + (ptr \<times> h64_group)" where
  "group_erase_entry g idx =
     (if \<not> idx < GROUP_ENTRIES then Inl Assertion_failed
      else
        Inr (entries g ! idx,
             g\<lparr>entries := (entries g)[idx := NULL],
               hints := (hints g)[idx := 0],
               status := status g AND NOT (push_bit idx 1)\<rparr>))"

text \<open>
  \<^verbatim>\<open>group_match_inserted\<close> loads 16 bytes at \<^verbatim>\<open>group->hints\<close>, compares each with the hint
  and takes the movemask. Lanes 7 to 15 lie beyond the hints and are cut off by
  \<^verbatim>\<open>& 0x7F\<close>, so the movemask is taken over the seven hint lanes only.
\<close>

definition hints_movemask :: "8 word list \<Rightarrow> 8 word \<Rightarrow> 8 word" where
  "hints_movemask hs hint = horner_sum of_bool 2 (map (\<lambda>h. hint = h) (take 7 hs))"

definition group_match_inserted :: "h64_group \<Rightarrow> 8 word \<Rightarrow> 8 word" where
  "group_match_inserted g hint = hints_movemask (hints g) hint AND status g AND 0x7F"

subsection \<open>The probe sequence\<close>

record probe_sequence =
  start :: "64 word"
  iteration :: "64 word"
  size_mask :: "64 word"

definition ps_init :: "64 word \<Rightarrow> nat \<Rightarrow> probe_sequence" where
  "ps_init hash sz =
     (let mask = word_of_nat sz - 1
      in \<lparr>start = hash AND mask, iteration = 0, size_mask = mask\<rparr>)"

definition ps_next :: "probe_sequence \<Rightarrow> probe_sequence" where
  "ps_next ps = ps\<lparr>iteration := iteration ps + 1\<rparr>"

definition ps_position :: "probe_sequence \<Rightarrow> nat" where
  "ps_position ps =
     (let s = start ps; i = iteration ps; mask = size_mask ps
      in unat ((s + i * (i + 1) div 2) AND mask))"

definition hash_hint :: "64 word \<Rightarrow> 8 word" where
  "hash_hint hash = ucast (drop_bit (8 * 7) hash)"

subsection \<open>Double arithmetic\<close>

text \<open>
  A finite non-negative \<^verbatim>\<open>double\<close> is a pair \<open>(m, e)\<close> that stands for \<open>m * 2 ^ e\<close>, with
  \<open>m \<le> 2 ^ 53\<close>. \<open>double_round a b\<close> is the double nearest to the rational \<open>a / b\<close>
  (ties to even): the exponent is chosen so that the quotient has 53 bits before the
  binary point. No value here leaves the range of normal doubles.
\<close>

type_synonym double = "nat \<times> int"

definition rne_div :: "nat \<Rightarrow> nat \<Rightarrow> nat" where
  "rne_div a b =
     (let q = a div b; r = a mod b
      in if b < 2 * r \<or> (2 * r = b \<and> odd q) then q + 1 else q)"

definition ilog2_ratio :: "nat \<Rightarrow> nat \<Rightarrow> int" where
  "ilog2_ratio a b =
     (let d = int (floorlog 2 a) - int (floorlog 2 b)
      in if (if 0 \<le> d then b * 2 ^ nat d \<le> a else b \<le> a * 2 ^ nat (- d)) then d else d - 1)"

definition double_round :: "nat \<Rightarrow> nat \<Rightarrow> double" where
  "double_round a b =
     (if a = 0 then (0, 0)
      else
        let e = ilog2_ratio a b - 52
        in (if 0 \<le> e then rne_div a (b * 2 ^ nat e) else rne_div (a * 2 ^ nat (- e)) b, e))"

definition double_of_size :: "nat \<Rightarrow> double" where
  "double_of_size n = double_round n 1"

definition double_mul :: "double \<Rightarrow> double \<Rightarrow> double" where
  "double_mul x y = (case double_round (fst x * fst y) 1 of (m, e) \<Rightarrow> (m, e + snd x + snd y))"

definition double_div :: "double \<Rightarrow> double \<Rightarrow> double" where
  "double_div x y = (case double_round (fst x) (fst y) of (m, e) \<Rightarrow> (m, e + snd x - snd y))"

text \<open>
  The conversion of a double to \<^verbatim>\<open>size_t\<close> truncates. It is defined for values below
  \<open>2 ^ 64\<close>: the thresholds of the load checks are, being less than a \<^verbatim>\<open>size_t\<close> value;
  for the quotient of \<^verbatim>\<open>h64_reserve\<close> see there.
\<close>

definition size_of_double :: "double \<Rightarrow> nat" where
  "size_of_double x = (case x of (m, e) \<Rightarrow> if 0 \<le> e then m * 2 ^ nat e else m div 2 ^ nat (- e))"

text \<open>The literal \<^verbatim>\<open>0.67\<close> is the double \<^verbatim>\<open>0x1.570a3d70a3d71p-1\<close>.\<close>

definition MAX_LOAD_FACTOR :: double where
  "MAX_LOAD_FACTOR = (0x1570A3D70A3D71, - 53)"

definition MIN_LOAD_FACTOR :: double where
  "MIN_LOAD_FACTOR = double_div MAX_LOAD_FACTOR (4, 0)"

subsection \<open>The table\<close>

text \<open>
  \<^verbatim>\<open>equals\<close> returns an \<^verbatim>\<open>int\<close>, which \<^verbatim>\<open>h64_equals\<close> reads as a \<^verbatim>\<open>bool\<close>. The callbacks are
  functions of the handle (and the seed): what they read through the handle does not
  change while the handle is in the table.
\<close>

record h64 =
  hasher :: "ptr \<Rightarrow> 64 word \<Rightarrow> 64 word"
  equals :: "ptr \<Rightarrow> ptr \<Rightarrow> int"
  seed :: "64 word"
  groups :: "h64_group list"
  size_in_groups :: nat
  count :: nat

type_synonym heap = "ptr list"

text \<open>
  \<^verbatim>\<open>xcalloc\<close> and \<^verbatim>\<open>aligned_xalloc\<close>: the next address of the heap, which must not be null,
  whatever the byte count.
\<close>

definition xalloc :: "heap \<Rightarrow> nat \<Rightarrow> h64_error + (ptr \<times> heap)" where
  "xalloc w bytes =
     (case w of
        [] \<Rightarrow> Inl Allocation_failed
      | a # w' \<Rightarrow> if a = NULL then Inl Allocation_failed else Inr (a, w'))"

definition sizeof_h64_group :: nat where
  "sizeof_h64_group = 64"

definition sizeof_h64 :: nat where
  "sizeof_h64 = 48"

definition zero_group :: h64_group where
  "zero_group = \<lparr>status = 0, hints = replicate GROUP_ENTRIES 0, entries = replicate GROUP_ENTRIES NULL\<rparr>"

text \<open>
  \<^verbatim>\<open>h64_init\<close>: the byte count \<^verbatim>\<open>size * sizeof(*groups)\<close> is a \<^verbatim>\<open>size_t\<close> product, which
  wraps around; the block and the \<^verbatim>\<open>memset\<close> have that many bytes, while \<^verbatim>\<open>size_in_groups\<close>
  is the size that was asked for.
\<close>

definition h64_init ::
  "heap \<Rightarrow> nat \<Rightarrow> (ptr \<Rightarrow> 64 word \<Rightarrow> 64 word) \<Rightarrow> (ptr \<Rightarrow> ptr \<Rightarrow> int) \<Rightarrow> h64_error + (heap \<times> h64)" where
  "h64_init w sz hasher_f equals_f =
     (if \<not> is_power_of_2 sz then Inl Assertion_failed
      else
        let sz1 = (if sz < MIN_SIZE then MIN_SIZE else sz);
            bytes = (sz1 * sizeof_h64_group) mod 2 ^ 64
        in case xalloc w bytes of
             Inl e \<Rightarrow> Inl e
           | Inr (a, w1) \<Rightarrow>
               Inr (w1, \<lparr>hasher = hasher_f, equals = equals_f, seed = mixer64 a,
                         groups = replicate (bytes div sizeof_h64_group) zero_group,
                         size_in_groups = sz1, count = 0\<rparr>))"

definition h64_create ::
  "heap \<Rightarrow> (ptr \<Rightarrow> 64 word \<Rightarrow> 64 word) \<Rightarrow> (ptr \<Rightarrow> ptr \<Rightarrow> int) \<Rightarrow> h64_error + (heap \<times> h64)" where
  "h64_create w hasher_f equals_f =
     (case xalloc w (1 * sizeof_h64) of
        Inl e \<Rightarrow> Inl e
      | Inr (a, w1) \<Rightarrow> h64_init w1 DEFAULT_SIZE hasher_f equals_f)"

definition h64_hash :: "h64 \<Rightarrow> ptr \<Rightarrow> 64 word" where
  "h64_hash h entry = hasher h entry (seed h)"

definition h64_equals :: "h64 \<Rightarrow> ptr \<Rightarrow> ptr \<Rightarrow> bool" where
  "h64_equals h lhs rhs = (equals h lhs rhs \<noteq> 0)"

definition h64_count :: "h64 \<Rightarrow> nat" where
  "h64_count h = count h"

text \<open>
  \<^verbatim>\<open>h64_for_each\<close>: the non-null entries, group by group and slot by slot, of the groups
  of the array. When the array is shorter than \<^verbatim>\<open>size_in_groups\<close> the loop goes on to
  read beyond it: see \<^verbatim>\<open>h64_resize\<close>.
\<close>

definition h64_for_each :: "h64 \<Rightarrow> ptr list" where
  "h64_for_each h =
     concat (map (\<lambda>g. filter (\<lambda>e. e \<noteq> NULL) (take GROUP_ENTRIES (entries g)))
                 (take (size_in_groups h) (groups h)))"

subsection \<open>Results\<close>

text \<open>
  The result of an operation that may fail or not return: \<open>None\<close> when it does not
  return, \<open>Some (Inl e)\<close> when it stops with the error \<open>e\<close>, \<open>Some (Inr x)\<close> when it
  returns \<open>x\<close>.
\<close>

type_synonym 'a outcome = "(h64_error + 'a) option"

definition bind_outcome :: "'a outcome \<Rightarrow> ('a \<Rightarrow> 'b outcome) \<Rightarrow> 'b outcome" where
  "bind_outcome m f =
     (case m of None \<Rightarrow> None | Some (Inl e) \<Rightarrow> Some (Inl e) | Some (Inr x) \<Rightarrow> f x)"

lemma bind_outcome_mono [partial_function_mono]:
  assumes "mono_option B" and "\<And>y. mono_option (\<lambda>f. C y f)"
  shows "mono_option (\<lambda>f. bind_outcome (B f) (\<lambda>y. C y f))"
proof -
  have eq: "bind_outcome m g = Option.bind m (\<lambda>r. case r of Inl e \<Rightarrow> Some (Inl e) | Inr x \<Rightarrow> g x)"
    for m :: "'c outcome" and g :: "'c \<Rightarrow> 'd outcome"
    by (simp add: bind_outcome_def split: option.splits sum.splits)
  show ?thesis
    unfolding eq
  proof (rule bind_mono [OF assms(1)])
    fix y
    show "mono_option (\<lambda>f. case y of Inl e \<Rightarrow> Some (Inl e) | Inr x \<Rightarrow> C x f)"
      by (cases y) (simp_all add: assms(2) option.const_mono)
  qed
qed

subsection \<open>Lookup\<close>

record find_result =
  result_group :: "nat option"
  result_index :: nat
  result_found :: bool

definition find_result_init :: "nat option \<Rightarrow> nat \<Rightarrow> bool \<Rightarrow> find_result" where
  "find_result_init g i f = \<lparr>result_group = g, result_index = i, result_found = f\<rparr>"

text \<open>
  The inner loop of \<^verbatim>\<open>h64_find_entry\<close>: the candidates of the match byte, lowest bit
  first, until one is equal to the entry.
\<close>

lemma clear_lowest_bit_less:
  fixes x :: "'a::len word"
  assumes "x \<noteq> 0"
  shows "x XOR (x AND - x) < x"
proof -
  have "x XOR (x AND - x) = x AND (x - 1)"
    by (auto simp add: minus_eq_not_minus_1 bit_eq_iff bit_simps)
  also have "\<dots> \<le> x - 1"
    by (rule word_and_le1)
  also have "x - 1 < x"
    using assms by (simp add: word_less_nat_alt unat_minus_one unat_gt_0)
  finally show ?thesis .
qed

function match_loop :: "h64 \<Rightarrow> ptr \<Rightarrow> ptr list \<Rightarrow> 8 word \<Rightarrow> nat option" where
  "match_loop h entry es match_byte =
     (if match_byte \<noteq> 0 then
        let match_bit = match_byte AND (- match_byte);
            idx = ctz match_byte
        in if h64_equals h entry (es ! idx) then Some idx
           else match_loop h entry es (match_byte XOR match_bit)
      else None)"
  by pat_completeness auto
termination
  by (relation "measure (\<lambda>(h, entry, es, match_byte). unat match_byte)")
    (auto simp add: clear_lowest_bit_less word_less_nat_alt [symmetric])

declare match_loop.simps [simp del]

text \<open>
  The loop of \<^verbatim>\<open>h64_find_entry\<close> reads the group \<^verbatim>\<open>h->groups[position]\<close>; a position beyond
  the array is \<open>Out_of_bounds\<close>.
\<close>

partial_function (option) find_entry_loop ::
  "h64 \<Rightarrow> ptr \<Rightarrow> 8 word \<Rightarrow> probe_sequence \<Rightarrow> find_result outcome" where
  "find_entry_loop h entry hint seq =
     (let position = ps_position seq
      in if \<not> position < length (groups h) then Some (Inl Out_of_bounds)
         else
           let g = groups h ! position
           in case match_loop h entry (entries g) (group_match_inserted g hint) of
                Some idx \<Rightarrow> Some (Inr (find_result_init (Some position) idx True))
              | None \<Rightarrow>
                  if \<not> group_was_full g then Some (Inr (find_result_init None (2 ^ 64 - 1) False))
                  else find_entry_loop h entry hint (ps_next seq))"

declare find_entry_loop.simps [code]

definition h64_find_entry :: "h64 \<Rightarrow> ptr \<Rightarrow> 64 word \<Rightarrow> find_result outcome" where
  "h64_find_entry h entry hash =
     find_entry_loop h entry (hash_hint hash) (ps_init hash (size_in_groups h))"

text \<open>
  In \<^verbatim>\<open>__builtin_ctz(~group->status)\<close> the status byte is promoted to a 32-bit
  \<^verbatim>\<open>int\<close> before it is complemented.
\<close>

partial_function (option) find_empty_entry_loop ::
  "h64 \<Rightarrow> probe_sequence \<Rightarrow> find_result outcome" where
  "find_empty_entry_loop h seq =
     (let position = ps_position seq
      in if \<not> position < length (groups h) then Some (Inl Out_of_bounds)
         else
           let g = groups h ! position
           in if \<not> group_is_full g then
                Some (Inr (find_result_init (Some position) (ctz (NOT (ucast (status g) :: 32 word))) True))
              else find_empty_entry_loop h (ps_next seq))"

declare find_empty_entry_loop.simps [code]

definition h64_find_empty_entry :: "h64 \<Rightarrow> 64 word \<Rightarrow> find_result outcome" where
  "h64_find_empty_entry h hash = find_empty_entry_loop h (ps_init hash (size_in_groups h))"

text \<open>\<open>None\<close>: \<^verbatim>\<open>h64_find\<close> does not return. \<open>Some (Inr NULL)\<close>: it returns \<^verbatim>\<open>NULL\<close>.\<close>

definition h64_find :: "h64 \<Rightarrow> ptr \<Rightarrow> ptr outcome" where
  "h64_find h entry =
     bind_outcome (h64_find_entry h entry (h64_hash h entry))
       (\<lambda>result.
          Some (Inr (if result_found result
                     then entries (groups h ! the (result_group result)) ! result_index result
                     else NULL)))"

subsection \<open>The load factor\<close>

definition h64_should_grow_up :: "h64 \<Rightarrow> bool" where
  "h64_should_grow_up h =
     (let max_count =
            size_of_double (double_mul MAX_LOAD_FACTOR
              (double_of_size ((size_in_groups h * GROUP_ENTRIES) mod 2 ^ 64)))
      in max_count < count h)"

definition h64_should_grow_down :: "h64 \<Rightarrow> bool" where
  "h64_should_grow_down h =
     (let min_count =
            size_of_double (double_mul MIN_LOAD_FACTOR
              (double_of_size ((size_in_groups h * GROUP_ENTRIES) mod 2 ^ 64)))
      in count h < min_count \<and> MIN_SIZE < size_in_groups h)"

text \<open>
  The thresholds \<^verbatim>\<open>max_count\<close> and \<^verbatim>\<open>min_count\<close> of the two checks, as functions of the
  number of groups.
\<close>

definition max_count_of :: "nat \<Rightarrow> nat" where
  "max_count_of sz =
     size_of_double (double_mul MAX_LOAD_FACTOR (double_of_size ((sz * GROUP_ENTRIES) mod 2 ^ 64)))"

definition min_count_of :: "nat \<Rightarrow> nat" where
  "min_count_of sz =
     size_of_double (double_mul MIN_LOAD_FACTOR (double_of_size ((sz * GROUP_ENTRIES) mod 2 ^ 64)))"

subsection \<open>Insertion and rehashing\<close>

text \<open>Storing a group at the position a \<^verbatim>\<open>find_result\<close> points to, and counting the entry.\<close>

definition install_entry :: "h64 \<Rightarrow> find_result \<Rightarrow> ptr \<Rightarrow> 8 word \<Rightarrow> h64_error + h64" where
  "install_entry h result entry hint =
     (let position = the (result_group result)
      in case group_insert (groups h ! position) entry hint (result_index result) of
           Inl e \<Rightarrow> Inl e
         | Inr g \<Rightarrow>
             Inr (h\<lparr>groups := (groups h)[position := g], count := (count h + 1) mod 2 ^ 64\<rparr>))"

text \<open>
  \<^verbatim>\<open>h64_insert_new\<close> grows the table through \<^verbatim>\<open>h64_resize\<close>, whose loop calls
  \<^verbatim>\<open>h64_insert_new\<close> on the new table. The three are one recursive function here:
  \<open>Insert_new h entry\<close> is the call \<^verbatim>\<open>h64_insert_new(h, entry)\<close>, \<open>Resize h sz\<close> the call
  \<^verbatim>\<open>h64_resize(h, size)\<close>, and \<open>For_each tmp es\<close> the rest of the loop of \<^verbatim>\<open>h64_resize\<close>
  that inserts the entries \<open>es\<close> into \<open>tmp\<close>. The loop of \<^verbatim>\<open>h64_resize\<close> reads
  \<^verbatim>\<open>size_in_groups\<close> groups of the old table: when it has inserted the entries of the
  groups of the array and the array is shorter, it reads beyond the array.
\<close>

datatype rehash_call = Insert_new h64 ptr | Resize h64 nat | For_each h64 "ptr list"

partial_function (option) h64_rehash :: "heap \<times> rehash_call \<Rightarrow> (heap \<times> h64) outcome" where
  "h64_rehash c =
     (case c of
        (w, Insert_new h entry) \<Rightarrow>
          bind_outcome
            (if h64_should_grow_up h
             then h64_rehash (w, Resize h ((size_in_groups h * 2) mod 2 ^ 64))
             else Some (Inr (w, h)))
            (\<lambda>(w1, h1).
               let hash = h64_hash h1 entry;
                   hint = hash_hint hash
               in case h64_find_empty_entry h1 hash of
                    None \<Rightarrow> None
                  | Some (Inl e) \<Rightarrow> Some (Inl e)
                  | Some (Inr result) \<Rightarrow>
                      (case install_entry h1 result entry hint of
                         Inl e \<Rightarrow> Some (Inl e)
                       | Inr h2 \<Rightarrow> Some (Inr (w1, h2))))
      | (w, Resize h sz) \<Rightarrow>
          if \<not> is_power_of_2 sz then Some (Inl Assertion_failed)
          else
            (case h64_init w sz (hasher h) (equals h) of
               Inl e \<Rightarrow> Some (Inl e)
             | Inr (w1, tmp) \<Rightarrow>
                 bind_outcome (h64_rehash (w1, For_each tmp (h64_for_each h)))
                   (\<lambda>(w2, tmp2).
                      if length (groups h) < size_in_groups h then Some (Inl Out_of_bounds)
                      else Some (Inr (w2, tmp2))))
      | (w, For_each tmp es) \<Rightarrow>
          (case es of
             [] \<Rightarrow> Some (Inr (w, tmp))
           | entry # es1 \<Rightarrow>
               bind_outcome (h64_rehash (w, Insert_new tmp entry))
                 (\<lambda>(w1, tmp1). h64_rehash (w1, For_each tmp1 es1))))"

declare h64_rehash.simps [code]

definition h64_insert_new :: "heap \<Rightarrow> h64 \<Rightarrow> ptr \<Rightarrow> (heap \<times> h64) outcome" where
  "h64_insert_new w h entry = h64_rehash (w, Insert_new h entry)"

definition h64_resize :: "heap \<Rightarrow> h64 \<Rightarrow> nat \<Rightarrow> (heap \<times> h64) outcome" where
  "h64_resize w h sz = h64_rehash (w, Resize h sz)"

definition h64_resize_loop :: "heap \<Rightarrow> h64 \<Rightarrow> ptr list \<Rightarrow> (heap \<times> h64) outcome" where
  "h64_resize_loop w tmp es = h64_rehash (w, For_each tmp es)"

definition h64_grow_up :: "heap \<Rightarrow> h64 \<Rightarrow> (heap \<times> h64) outcome" where
  "h64_grow_up w h = h64_resize w h ((size_in_groups h * 2) mod 2 ^ 64)"

definition h64_grow_down :: "heap \<Rightarrow> h64 \<Rightarrow> (heap \<times> h64) outcome" where
  "h64_grow_down w h = h64_resize w h (size_in_groups h div 2)"

text \<open>
  \<^verbatim>\<open>h64_reserve\<close> converts the quotient \<^verbatim>\<open>entries_count / MAX_LOAD_FACTOR\<close> to \<^verbatim>\<open>size_t\<close>,
  which is undefined when the quotient is \<open>2 ^ 64\<close> or more.
\<close>

definition h64_reserve :: "heap \<Rightarrow> h64 \<Rightarrow> nat \<Rightarrow> (heap \<times> h64) outcome" where
  "h64_reserve w h entries_count =
     (let total_entries = size_of_double (double_div (double_of_size entries_count) MAX_LOAD_FACTOR)
      in if 2 ^ 64 \<le> total_entries then Some (Inl Out_of_range)
         else
           let sz = unat (roundup_to_pow2 (word_of_nat (total_entries div GROUP_ENTRIES + 1)))
           in h64_resize w h sz)"

definition h64_insert :: "heap \<Rightarrow> h64 \<Rightarrow> ptr \<Rightarrow> (heap \<times> h64) outcome" where
  "h64_insert w h entry =
     bind_outcome (if h64_should_grow_up h then h64_grow_up w h else Some (Inr (w, h)))
       (\<lambda>(w1, h1).
          let hash = h64_hash h1 entry;
              hint = hash_hint hash
          in case h64_find_entry h1 entry hash of
               None \<Rightarrow> None
             | Some (Inl e) \<Rightarrow> Some (Inl e)
             | Some (Inr result) \<Rightarrow>
                 if result_found result then
                   (let position = the (result_group result)
                    in case group_update (groups h1 ! position) entry (result_index result) of
                         Inl e \<Rightarrow> Some (Inl e)
                       | Inr g \<Rightarrow> Some (Inr (w1, h1\<lparr>groups := (groups h1)[position := g]\<rparr>)))
                 else
                   (case h64_find_empty_entry h1 hash of
                      None \<Rightarrow> None
                    | Some (Inl e) \<Rightarrow> Some (Inl e)
                    | Some (Inr result1) \<Rightarrow>
                        (case install_entry h1 result1 entry hint of
                           Inl e \<Rightarrow> Some (Inl e)
                         | Inr h2 \<Rightarrow> Some (Inr (w1, h2)))))"

text \<open>\<^verbatim>\<open>h64_erase\<close> returns the erased entry, or \<^verbatim>\<open>NULL\<close>, with the heap and the table.\<close>

definition h64_erase :: "heap \<Rightarrow> h64 \<Rightarrow> ptr \<Rightarrow> (heap \<times> h64 \<times> ptr) outcome" where
  "h64_erase w h entry =
     (case h64_find_entry h entry (h64_hash h entry) of
        None \<Rightarrow> None
      | Some (Inl e) \<Rightarrow> Some (Inl e)
      | Some (Inr result) \<Rightarrow>
          if result_found result then
            (let position = the (result_group result)
             in case group_erase_entry (groups h ! position) (result_index result) of
                  Inl e \<Rightarrow> Some (Inl e)
                | Inr (ret, g) \<Rightarrow>
                    (let h1 = h\<lparr>groups := (groups h)[position := g],
                                count := (count h + 2 ^ 64 - 1) mod 2 ^ 64\<rparr>
                     in bind_outcome
                          (if h64_should_grow_down h1 then h64_grow_down w h1 else Some (Inr (w, h1)))
                          (\<lambda>(w2, h2). Some (Inr (w2, h2, ret)))))
          else Some (Inr (w, h, NULL)))"

section \<open>Properties of the status byte\<close>

lemma group_was_full_iff: "group_was_full g \<longleftrightarrow> bit (status g) 7"
proof -
  have "drop_bit 7 w \<noteq> 0 \<longleftrightarrow> bit w 7" for w :: "8 word"
  proof
    assume "drop_bit 7 w \<noteq> 0"
    then obtain n where "bit (drop_bit 7 w) n"
      by (auto simp add: bit_eq_iff)
    then have "bit w (7 + n)" "7 + n < 8"
      by (auto simp add: bit_simps dest: bit_imp_le_length)
    then show "bit w 7"
      by (cases n) simp_all
  next
    assume "bit w 7"
    then have "bit (drop_bit 7 w) 0"
      by (simp add: bit_simps)
    then show "drop_bit 7 w \<noteq> 0"
      by auto
  qed
  then show ?thesis
    by (simp add: group_was_full_def)
qed

lemma slot_test_zero_iff: "drop_bit idx w AND 1 \<noteq> 0 \<longleftrightarrow> bit w idx" for w :: "8 word"
  by (simp add: bit_iff_odd_drop_bit and_one_eq mod_2_eq_odd)

lemma slot_test_one_iff: "drop_bit idx w AND 1 = 1 \<longleftrightarrow> bit w idx" for w :: "8 word"
  by (simp add: bit_iff_odd_drop_bit and_one_eq mod_2_eq_odd)

lemma bit_clear_slot: "bit (w AND NOT (2 ^ idx)) j \<longleftrightarrow> bit w j \<and> j \<noteq> idx" for w :: "8 word"
  by (auto simp add: bit_simps dest: bit_imp_le_length)

lemma bit_set_slot: "bit (w OR 2 ^ idx) j \<longleftrightarrow> bit w j \<or> (j = idx \<and> idx < 8)" for w :: "8 word"
  by (auto simp add: bit_simps dest: bit_imp_le_length)

lemma entries_mask_eq: "(0x7F :: 8 word) = mask 7"
  by (simp add: mask_eq_exp_minus_1)

lemma group_is_full_iff: "group_is_full g \<longleftrightarrow> (\<forall>i<7. bit (status g) i)"
  unfolding group_is_full_def ENTRIES_MASK_def entries_mask_eq
  apply (auto simp add: bit_eq_iff bit_simps)
  apply (drule_tac x = i in spec)
  apply simp
  done

lemma bit_all_ones: "bit (0xFF :: 8 word) j \<longleftrightarrow> j < 8"
proof -
  have eq: "(0xFF :: 8 word) = - 1"
    by simp
  show ?thesis
    unfolding eq by (simp add: bit_simps)
qed

lemma ctz_is_set: "ctz w < LENGTH('a) \<Longrightarrow> bit w (ctz w)" for w :: "'a::len word"
  unfolding ctz_def
  by (metis (mono_tags, lifting) diff_zero length_upt nth_length_takeWhile nth_upt plus_nat.add_0)

lemma ctz_least:
  fixes w :: "'a::len word"
  assumes "j < ctz w"
  shows "\<not> bit w j"
proof -
  let ?tw = "takeWhile (\<lambda>n. \<not> bit w n) [0..<LENGTH('a)]"
  from assms have j: "j < length ?tw"
    by (simp add: ctz_def)
  then have "j < LENGTH('a)"
    using length_takeWhile_le [of "\<lambda>n. \<not> bit w n" "[0..<LENGTH('a)]"] by simp
  with j have "?tw ! j = j"
    by (simp add: takeWhile_nth)
  moreover from j have "?tw ! j \<in> set ?tw"
    by (rule nth_mem)
  ultimately show ?thesis
    by (auto dest: set_takeWhileD)
qed

lemma ctz_le: "bit w j \<Longrightarrow> ctz w \<le> j" for w :: "'a::len word"
  using ctz_least [of j w] by (meson not_le)

lemma ctz_bound: "ctz w \<le> LENGTH('a)" for w :: "'a::len word"
  unfolding ctz_def by (metis length_takeWhile_le length_upt diff_zero)

lemma ctz_nonzero:
  fixes w :: "'a::len word"
  assumes "w \<noteq> 0"
  shows "ctz w < LENGTH('a)"
proof -
  from assms obtain n where n: "bit w n"
    by (auto simp add: bit_eq_iff)
  then have "n < LENGTH('a)"
    by (rule bit_imp_le_length)
  with ctz_le [OF n] show ?thesis
    by simp
qed

lemma ctz_eqI:
  fixes w :: "'a::len word"
  assumes "bit w n" and "\<And>j. j < n \<Longrightarrow> \<not> bit w j"
  shows "ctz w = n"
proof -
  have "ctz w \<le> n"
    using assms(1) by (rule ctz_le)
  moreover have "w \<noteq> 0"
    using assms(1) by auto
  then have "bit w (ctz w)"
    by (intro ctz_is_set ctz_nonzero)
  with assms(2) have "\<not> ctz w < n"
    by auto
  ultimately show ?thesis
    by simp
qed

text \<open>The trailing zeros, bit by bit: the equation that evaluates \<open>ctz\<close> at a numeral.\<close>

lemma ctz_rec:
  fixes w :: "'a::len word"
  shows "ctz w = (if w = 0 then LENGTH('a) else if odd w then 0 else Suc (ctz (drop_bit 1 w)))"
proof (cases "w = 0")
  case True
  then show ?thesis
    by (simp add: ctz_def takeWhile_eq_all_conv [THEN iffD2])
next
  case False
  show ?thesis
  proof (cases "odd w")
    case True
    then have "ctz w = 0"
      by (intro ctz_eqI) (simp_all add: bit_0)
    with True False show ?thesis
      by simp
  next
    case even: False
    let ?v = "drop_bit 1 w"
    have "?v \<noteq> 0"
    proof
      assume "?v = 0"
      then have "\<not> bit ?v n" for n
        by simp
      then have "\<not> bit w (Suc n)" for n
        by (simp add: bit_simps)
      moreover have "\<not> bit w 0"
        using even by (simp add: bit_0)
      ultimately have "\<not> bit w n" for n
        by (cases n) simp_all
      then have "w = 0"
        by (simp add: bit_eq_iff)
      with False show False ..
    qed
    then have v: "bit ?v (ctz ?v)"
      by (intro ctz_is_set ctz_nonzero)
    have "ctz w = Suc (ctz ?v)"
    proof (rule ctz_eqI)
      from v show "bit w (Suc (ctz ?v))"
        by (simp add: bit_simps)
    next
      fix j
      assume j: "j < Suc (ctz ?v)"
      show "\<not> bit w j"
      proof (cases j)
        case 0
        with even show ?thesis
          by (simp add: bit_0)
      next
        case (Suc i)
        with j have "\<not> bit ?v i"
          by (intro ctz_least) simp
        with Suc show ?thesis
          by (simp add: bit_simps)
      qed
    qed
    with even False show ?thesis
      by simp
  qed
qed

section \<open>The recursion equations of the operations\<close>

lemma h64_insert_new_eq:
  "h64_insert_new w h entry =
     bind_outcome (if h64_should_grow_up h then h64_grow_up w h else Some (Inr (w, h)))
       (\<lambda>(w1, h1).
          let hash = h64_hash h1 entry;
              hint = hash_hint hash
          in case h64_find_empty_entry h1 hash of
               None \<Rightarrow> None
             | Some (Inl e) \<Rightarrow> Some (Inl e)
             | Some (Inr result) \<Rightarrow>
                 (case install_entry h1 result entry hint of
                    Inl e \<Rightarrow> Some (Inl e)
                  | Inr h2 \<Rightarrow> Some (Inr (w1, h2))))"
  unfolding h64_insert_new_def h64_grow_up_def h64_resize_def
  by (subst h64_rehash.simps) simp

lemma h64_resize_eq:
  "h64_resize w h sz =
     (if \<not> is_power_of_2 sz then Some (Inl Assertion_failed)
      else
        (case h64_init w sz (hasher h) (equals h) of
           Inl e \<Rightarrow> Some (Inl e)
         | Inr (w1, tmp) \<Rightarrow>
             bind_outcome (h64_resize_loop w1 tmp (h64_for_each h))
               (\<lambda>(w2, tmp2).
                  if length (groups h) < size_in_groups h then Some (Inl Out_of_bounds)
                  else Some (Inr (w2, tmp2)))))"
  unfolding h64_resize_def h64_resize_loop_def
  by (subst h64_rehash.simps) simp

lemma h64_resize_loop_Nil: "h64_resize_loop w tmp [] = Some (Inr (w, tmp))"
  unfolding h64_resize_loop_def
  by (subst h64_rehash.simps) simp

lemma h64_resize_loop_Cons:
  "h64_resize_loop w tmp (entry # es) =
     bind_outcome (h64_insert_new w tmp entry) (\<lambda>(w1, tmp1). h64_resize_loop w1 tmp1 es)"
  unfolding h64_resize_loop_def h64_insert_new_def
  by (subst h64_rehash.simps) simp

lemma h64_reserve_resize:
  assumes "h64_reserve w h n = Some (Inr x)"
  obtains sz where "h64_resize w h sz = Some (Inr x)"
  using assms by (auto simp add: h64_reserve_def Let_def split: if_splits)

section \<open>An induction rule for rehashing\<close>

text \<open>
  The calls of \<^verbatim>\<open>h64_insert_new\<close>, \<^verbatim>\<open>h64_resize\<close> and its loop that return, by induction
  on the calls they make.
\<close>

lemma bind_outcome_Some:
  "bind_outcome m k = Some r \<longleftrightarrow>
     (\<exists>e. m = Some (Inl e) \<and> r = Inl e) \<or> (\<exists>x. m = Some (Inr x) \<and> k x = Some r)"
  by (auto simp add: bind_outcome_def split: option.splits sum.splits)

lemma h64_rehash_induct [consumes 1, case_names Insert_new Resize Nil Cons]:
  assumes run: "h64_rehash (w, c) = Some (Inr (w', h'))"
    and insert_new: "\<And>w h e w1 h1 result h2.
        (if h64_should_grow_up h then h64_grow_up w h else Some (Inr (w, h)))
          = Some (Inr (w1, h1)) \<Longrightarrow>
        (h64_should_grow_up h \<Longrightarrow> P w (Resize h ((size_in_groups h * 2) mod 2 ^ 64)) w1 h1) \<Longrightarrow>
        h64_find_empty_entry h1 (h64_hash h1 e) = Some (Inr result) \<Longrightarrow>
        install_entry h1 result e (hash_hint (h64_hash h1 e)) = Inr h2 \<Longrightarrow>
        P w (Insert_new h e) w1 h2"
    and resize: "\<And>w h sz w1 tmp w2 h2.
        is_power_of_2 sz \<Longrightarrow> h64_init w sz (hasher h) (equals h) = Inr (w1, tmp) \<Longrightarrow>
        h64_resize_loop w1 tmp (h64_for_each h) = Some (Inr (w2, h2)) \<Longrightarrow>
        \<not> length (groups h) < size_in_groups h \<Longrightarrow>
        P w1 (For_each tmp (h64_for_each h)) w2 h2 \<Longrightarrow> P w (Resize h sz) w2 h2"
    and nil: "\<And>w tmp. P w (For_each tmp []) w tmp"
    and cons: "\<And>w tmp e es w1 tmp1 w2 tmp2.
        h64_insert_new w tmp e = Some (Inr (w1, tmp1)) \<Longrightarrow> P w (Insert_new tmp e) w1 tmp1 \<Longrightarrow>
        h64_resize_loop w1 tmp1 es = Some (Inr (w2, tmp2)) \<Longrightarrow> P w1 (For_each tmp1 es) w2 tmp2 \<Longrightarrow>
        P w (For_each tmp (e # es)) w2 tmp2"
  shows "P w c w' h'"
proof -
  define Q where "Q c r \<longleftrightarrow> h64_rehash c = Some r \<and>
    (\<forall>w call w' h'. c = (w, call) \<longrightarrow> r = Inr (w', h') \<longrightarrow> P w call w' h')" for c r
  have "Q c r" if "h64_rehash c = Some r" for c r
    using that
  proof (induct rule: h64_rehash.raw_induct [rotated 1, consumes 1, case_names step])
    case (step rehash c r)
    have run: "h64_rehash c = Some r" if "rehash c = Some r" for c r
      using step(1) [OF that] by (simp add: Q_def)
    have post: "P w call w' h'" if "rehash (w, call) = Some (Inr (w', h'))" for w call w' h'
      using step(1) [OF that] by (simp add: Q_def)
    obtain w call where c: "c = (w, call)"
      by (cases c)
    show ?case
    proof (cases call)
      case (Insert_new h e)
      define m where "m = (if h64_should_grow_up h
        then rehash (w, Resize h ((size_in_groups h * 2) mod 2 ^ 64))
        else Some (Inr (w, h)))"
      define k :: "heap \<times> h64 \<Rightarrow> (heap \<times> h64) outcome" where "k = (\<lambda>(w1, h1).
        case h64_find_empty_entry h1 (h64_hash h1 e) of
          None \<Rightarrow> None
        | Some (Inl e) \<Rightarrow> Some (Inl e)
        | Some (Inr result) \<Rightarrow>
            (case install_entry h1 result e (hash_hint (h64_hash h1 e)) of
               Inl e \<Rightarrow> Some (Inl e)
             | Inr h2 \<Rightarrow> Some (Inr (w1, h2))))"
      from step(2) have body: "bind_outcome m k = Some r"
        by (simp add: c Insert_new m_def k_def Let_def del: One_nat_def)
      then obtain x where x: "m = Some x"
        by (auto simp add: bind_outcome_Some)
      have m: "(if h64_should_grow_up h then h64_grow_up w h else Some (Inr (w, h))) = m"
        using x run [of "(w, Resize h ((size_in_groups h * 2) mod 2 ^ 64))" x]
        by (auto simp add: m_def h64_resize_def h64_grow_up_def split: if_splits)
      have "h64_insert_new w h e = bind_outcome m k"
        by (simp only: h64_insert_new_eq m k_def Let_def)
      with body have "h64_rehash c = Some r"
        by (simp add: c Insert_new h64_insert_new_def)
      moreover have "P w (Insert_new h e) w' h'" if r: "r = Inr (w', h')" for w' h'
      proof -
        from body r obtain w1 h1 where m1: "m = Some (Inr (w1, h1))" and k: "k (w1, h1) = Some (Inr (w', h'))"
          by (auto simp add: bind_outcome_Some)
        from k obtain result where result: "h64_find_empty_entry h1 (h64_hash h1 e) = Some (Inr result)"
          and inst: "install_entry h1 result e (hash_hint (h64_hash h1 e)) = Inr h'" and w': "w' = w1"
          by (auto simp add: k_def split: option.splits sum.splits)
        have "P w (Resize h ((size_in_groups h * 2) mod 2 ^ 64)) w1 h1" if "h64_should_grow_up h"
          using that m1 by (intro post) (simp add: m_def)
        with m m1 show ?thesis
          unfolding w' by (intro insert_new [OF _ _ result inst]) simp_all
      qed
      ultimately show ?thesis
        by (simp add: Q_def c Insert_new)
    next
      case (Resize h sz)
      show ?thesis
      proof (cases "is_power_of_2 sz")
        case False
        with step(2) have "r = Inl Assertion_failed"
          by (simp add: c Resize)
        with False show ?thesis
          by (simp add: Q_def c Resize h64_resize_def [symmetric] h64_resize_eq)
      next
        case pow: True
        show ?thesis
        proof (cases "h64_init w sz (hasher h) (equals h)")
          case (Inl err)
          with step(2) pow have "r = Inl err"
            by (simp add: c Resize)
          with pow Inl show ?thesis
            by (simp add: Q_def c Resize h64_resize_def [symmetric] h64_resize_eq)
        next
          case (Inr res)
          then obtain w1 tmp where init: "h64_init w sz (hasher h) (equals h) = Inr (w1, tmp)"
            by (cases res) simp
          define check :: "heap \<times> h64 \<Rightarrow> (heap \<times> h64) outcome" where "check = (\<lambda>(w2, tmp2).
            if length (groups h) < size_in_groups h then Some (Inl Out_of_bounds)
            else Some (Inr (w2, tmp2)))"
          from step(2) pow init
          have body: "bind_outcome (rehash (w1, For_each tmp (h64_for_each h))) check = Some r"
            by (simp add: c Resize check_def)
          then obtain x where loop: "rehash (w1, For_each tmp (h64_for_each h)) = Some x"
            by (auto simp add: bind_outcome_Some)
          then have loop': "h64_resize_loop w1 tmp (h64_for_each h) = Some x"
            unfolding h64_resize_loop_def by (rule run)
          have eq: "h64_resize w h sz = bind_outcome (h64_resize_loop w1 tmp (h64_for_each h)) check"
            using pow init by (simp add: h64_resize_eq check_def)
          with body loop loop' have "h64_rehash c = Some r"
            by (simp add: c Resize h64_resize_def [symmetric])
          moreover have "P w (Resize h sz) w' h'" if r: "r = Inr (w', h')" for w' h'
          proof -
            from body loop r have x: "x = Inr (w', h')" and inb: "\<not> length (groups h) < size_in_groups h"
              by (auto simp add: bind_outcome_Some check_def split: if_splits)
            from pow init loop' [unfolded x] inb post [OF loop [unfolded x]] show ?thesis
              by (rule resize)
          qed
          ultimately show ?thesis
            by (simp add: Q_def c Resize)
        qed
      qed
    next
      case (For_each tmp es)
      show ?thesis
      proof (cases es)
        case Nil
        with step(2) have "r = Inr (w, tmp)"
          by (simp add: c For_each)
        then show ?thesis
          using nil [of w tmp]
          by (simp add: Q_def c For_each Nil h64_resize_loop_def [symmetric] h64_resize_loop_Nil)
      next
        case (Cons e es1)
        from step(2) have body: "bind_outcome (rehash (w, Insert_new tmp e))
          (\<lambda>(w1, tmp1). rehash (w1, For_each tmp1 es1)) = Some r"
          by (simp add: c For_each Cons)
        then consider (err) err where "rehash (w, Insert_new tmp e) = Some (Inl err)" "r = Inl err"
          | (ok) w1 tmp1 where "rehash (w, Insert_new tmp e) = Some (Inr (w1, tmp1))"
              "rehash (w1, For_each tmp1 es1) = Some r"
          by (auto simp add: bind_outcome_Some)
        then show ?thesis
        proof cases
          case err
          from run [OF err(1)] err(2) show ?thesis
            by (simp add: Q_def c For_each Cons h64_resize_loop_def [symmetric]
                h64_resize_loop_Cons h64_insert_new_def bind_outcome_def)
        next
          case ok
          have ins: "h64_insert_new w tmp e = Some (Inr (w1, tmp1))"
            unfolding h64_insert_new_def using ok(1) by (rule run)
          have loop: "h64_resize_loop w1 tmp1 es1 = Some r"
            unfolding h64_resize_loop_def using ok(2) by (rule run)
          from ins loop have "h64_rehash c = Some r"
            by (simp add: c For_each Cons h64_resize_loop_def [symmetric]
                h64_resize_loop_Cons bind_outcome_def)
          moreover have "P w (For_each tmp (e # es1)) w' h'" if r: "r = Inr (w', h')" for w' h'
            using ins post [OF ok(1)] loop [unfolded r] post [OF ok(2) [unfolded r]] by (rule cons)
          ultimately show ?thesis
            by (simp add: Q_def c For_each Cons)
        qed
      qed
    qed
  qed
  from this [OF run] show ?thesis
    by (simp add: Q_def)
qed

section \<open>Erase at an index and the was-full bit\<close>

lemma group_insert_keeps_was_full:
  "group_insert g entry hint idx = Inr g' \<Longrightarrow> group_was_full g \<Longrightarrow> group_was_full g'"
  by (auto simp add: group_insert_def group_was_full_iff bit_set_slot bit_all_ones Let_def
      split: if_splits)

lemma group_update_keeps_was_full:
  "group_update g entry idx = Inr g' \<Longrightarrow> group_was_full g' = group_was_full g"
  by (auto simp add: group_update_def group_was_full_iff split: if_splits)

lemma group_erase_keeps_was_full:
  "group_erase_entry g idx = Inr (e, g') \<Longrightarrow> group_was_full g' = group_was_full g"
  by (auto simp add: group_erase_entry_def group_was_full_iff bit_clear_slot GROUP_ENTRIES_def
      split: if_splits)

text \<open>
  An operation that returns the heap it was given has not allocated, so the table still
  has the group array it had: every allocation takes an address from the heap.
\<close>

lemma h64_init_heap:
  "h64_init w sz hf ef = Inr (w1, t) \<Longrightarrow> length w = Suc (length w1)"
  by (auto simp add: h64_init_def xalloc_def Let_def split: if_splits list.splits sum.splits)

definition heap_shrinks :: "heap \<times> rehash_call \<Rightarrow> h64_error + heap \<times> h64 \<Rightarrow> bool" where
  "heap_shrinks c r =
     (case r of
        Inl e \<Rightarrow> True
      | Inr (w', h') \<Rightarrow>
          (case snd c of
             Resize h sz \<Rightarrow> length w' < length (fst c)
           | _ \<Rightarrow> length w' \<le> length (fst c)))"

lemma rehash_heap:
  assumes "h64_rehash c = Some r"
  shows "heap_shrinks c r"
  using assms
proof (induct rule: h64_rehash.raw_induct [rotated 1, consumes 1, case_names step])
  case (step rehash c r)
  obtain w call where c: "c = (w, call)"
    by (cases c)
  show ?case
  proof (cases call)
    case (Insert_new h entry)
    show ?thesis
    proof (cases "h64_should_grow_up h")
      case True
      with step(2) c Insert_new show ?thesis
        by (auto simp add: bind_outcome_def heap_shrinks_def Let_def
            split: option.splits sum.splits prod.splits dest!: step(1))
    next
      case False
      with step(2) c Insert_new show ?thesis
        by (auto simp add: bind_outcome_def heap_shrinks_def Let_def
            split: option.splits sum.splits prod.splits)
    qed
  next
    case (Resize h sz)
    with step(2) c show ?thesis
      by (auto simp add: bind_outcome_def heap_shrinks_def
          split: if_splits option.splits sum.splits prod.splits
          dest!: step(1) h64_init_heap)
  next
    case (For_each tmp es)
    with step(2) c show ?thesis
      by (auto simp add: bind_outcome_def heap_shrinks_def
          split: list.splits option.splits sum.splits prod.splits dest!: step(1))
  qed
qed

lemma h64_resize_heap: "h64_resize w h sz = Some (Inr (w', h')) \<Longrightarrow> length w' < length w"
  unfolding h64_resize_def by (drule rehash_heap) (simp add: heap_shrinks_def)

definition was_full_kept :: "h64 \<Rightarrow> h64 \<Rightarrow> bool" where
  "was_full_kept h h' \<longleftrightarrow>
     length (groups h') = length (groups h) \<and>
     (\<forall>p<length (groups h). group_was_full (groups h ! p) \<longrightarrow> group_was_full (groups h' ! p))"

lemma was_full_kept_update:
  assumes "groups h' = (groups h)[q := g]"
    and "group_was_full (groups h ! q) \<Longrightarrow> group_was_full g"
  shows "was_full_kept h h'"
  unfolding was_full_kept_def
proof (intro conjI allI impI)
  show "length (groups h') = length (groups h)"
    using assms(1) by simp
next
  fix p
  assume "p < length (groups h)" "group_was_full (groups h ! p)"
  with assms show "group_was_full (groups h' ! p)"
    by (cases "p = q") simp_all
qed

lemma was_full_kept_refl: "was_full_kept h h"
  by (simp add: was_full_kept_def)

lemma install_entry_kept:
  "install_entry h result entry hint = Inr h' \<Longrightarrow> was_full_kept h h'"
  by (auto simp add: install_entry_def Let_def split: sum.splits
      intro!: was_full_kept_update [where q = "the (result_group result)"]
      dest: group_insert_keeps_was_full)

lemma h64_insert_kept:
  assumes "h64_insert w h entry = Some (Inr (w, h'))"
  shows "was_full_kept h h'"
proof (cases "h64_should_grow_up h")
  case True
  with assms show ?thesis
    by (auto simp add: h64_insert_def h64_grow_up_def bind_outcome_def Let_def
      split: option.splits sum.splits prod.splits if_splits dest!: h64_resize_heap)
next
  case False
  with assms obtain result where
    result: "h64_find_entry h entry (h64_hash h entry) = Some (Inr result)"
    by (auto simp add: h64_insert_def bind_outcome_def Let_def split: option.splits sum.splits)
  show ?thesis
  proof (cases "result_found result")
    case True
    with assms False result obtain g where
      "group_update (groups h ! the (result_group result)) entry (result_index result) = Inr g"
      "h' = h\<lparr>groups := (groups h)[the (result_group result) := g]\<rparr>"
      by (auto simp add: h64_insert_def bind_outcome_def Let_def split: sum.splits)
    then show ?thesis
      by (auto intro!: was_full_kept_update [where q = "the (result_group result)"]
          dest: group_update_keeps_was_full)
  next
    case not_found: False
    with assms False result show ?thesis
      by (auto simp add: h64_insert_def bind_outcome_def Let_def
          split: option.splits sum.splits dest: install_entry_kept)
  qed
qed

lemma h64_insert_new_kept:
  assumes "h64_insert_new w h entry = Some (Inr (w, h'))"
  shows "was_full_kept h h'"
proof (cases "h64_should_grow_up h")
  case True
  with assms show ?thesis
    by (auto simp add: h64_insert_new_eq h64_grow_up_def bind_outcome_def Let_def
      split: option.splits sum.splits prod.splits if_splits dest!: h64_resize_heap)
next
  case False
  with assms show ?thesis
    by (auto simp add: h64_insert_new_eq bind_outcome_def Let_def
      split: option.splits sum.splits prod.splits if_splits dest: install_entry_kept)
qed

lemma h64_erase_kept:
  assumes "h64_erase w h entry = Some (Inr (w, h', ret))"
  shows "was_full_kept h h'"
proof -
  from assms obtain result where
    result: "h64_find_entry h entry (h64_hash h entry) = Some (Inr result)"
    by (auto simp add: h64_erase_def split: option.splits sum.splits)
  show ?thesis
  proof (cases "result_found result")
    case True
    define q where "q = the (result_group result)"
    from assms result True obtain r g where
      g: "group_erase_entry (groups h ! q) (result_index result) = Inr (r, g)"
      by (cases "group_erase_entry (groups h ! q) (result_index result)")
        (auto simp add: h64_erase_def q_def)
    define h1 where "h1 = h\<lparr>groups := (groups h)[q := g], count := (count h + 2 ^ 64 - 1) mod 2 ^ 64\<rparr>"
    have eq: "h64_erase w h entry =
      bind_outcome (if h64_should_grow_down h1 then h64_grow_down w h1 else Some (Inr (w, h1)))
        (\<lambda>(w2, h2). Some (Inr (w2, h2, r)))"
      using result True g unfolding h1_def q_def
      by (simp add: h64_erase_def Let_def del: One_nat_def)
    have "h' = h1"
    proof (cases "h64_should_grow_down h1")
      case True
      with assms eq show ?thesis
        by (auto simp add: bind_outcome_def h64_grow_down_def
            split: option.splits sum.splits dest!: h64_resize_heap)
    next
      case False
      with assms eq show ?thesis
        by (simp add: bind_outcome_def)
    qed
    moreover have "was_full_kept h h1"
      using g by (auto simp add: h1_def intro!: was_full_kept_update [where q = q]
          dest: group_erase_keeps_was_full)
    ultimately show ?thesis
      by simp
  next
    case False
    with assms result show ?thesis
      by (auto simp add: h64_erase_def was_full_kept_refl)
  qed
qed

section \<open>The load thresholds of a table of \<open>2 ^ k\<close> groups\<close>

text \<open>
  \<open>7 * 2 ^ k\<close> is a double, and its product with \<^verbatim>\<open>0.67\<close> rounds to
  \<open>5280470563091907 * 2 ^ (k - 50)\<close>: the thresholds are that number, and a quarter of it,
  truncated.
\<close>

lemma rne_div_exact: "0 < b \<Longrightarrow> rne_div (a * b) b = a"
  by (simp add: rne_div_def)

lemma rne_div_one: "rne_div a (Suc 0) = a"
  by (simp add: rne_div_def)

lemma double_of_size_groups: "double_of_size (2 ^ k * 7) = (7 * 2 ^ 50, int k - 50)"
proof -
  have fl: "floorlog 2 (2 ^ k * 7 :: nat) = 3 + k"
    by (simp add: mult.commute [of "2 ^ k"] compute_floorlog [of 2 7] compute_floorlog [of 2 3]
        compute_floorlog [of 2 "Suc 0"] compute_floorlog [of 2 0])
  have fl1: "floorlog 2 (Suc 0) = 1"
    by (simp add: compute_floorlog [of 2 "Suc 0"] compute_floorlog [of 2 0])
  have "nat (2 + int k) = k + 2"
    by simp
  then have il: "ilog2_ratio (2 ^ k * 7) (Suc 0) = int k + 2"
    by (simp add: ilog2_ratio_def fl fl1 Let_def power_add)
  show ?thesis
  proof (cases "50 \<le> k")
    case True
    then obtain d where k: "k = 50 + d"
      by (auto simp add: le_iff_add)
    have "rne_div (2 ^ k * 7) (2 ^ d) = 7 * 2 ^ 50"
      using rne_div_exact [of "2 ^ d" "7 * 2 ^ 50"] by (simp add: k power_add mult_ac)
    then show ?thesis
      using il by (simp add: double_of_size_def double_round_def k Let_def)
  next
    case False
    then obtain d where k: "50 = k + d" "0 < d"
      by (metis le_iff_add not_le_imp_less less_imp_le_nat add_cancel_right_right gr0I not_less_iff_gr_or_eq)
    have "(2::nat) ^ k * 7 * 2 ^ d = 7 * 2 ^ 50"
      by (simp add: k(1) power_add)
    moreover have "nat (50 - int k) = d"
      using k by simp
    ultimately show ?thesis
      using False by (simp add: double_of_size_def double_round_def il rne_div_one Let_def)
  qed
qed


lemma double_mul_max: "double_mul MAX_LOAD_FACTOR (7881299347898368, e) = (5280470563091907, e)"
  by (simp add: double_mul_def MAX_LOAD_FACTOR_def double_round_def ilog2_ratio_def rne_div_def
      compute_floorlog Let_def)

lemma min_load_factor_eq: "MIN_LOAD_FACTOR = (0x1570A3D70A3D71, - 55)"
  by (simp add: MIN_LOAD_FACTOR_def MAX_LOAD_FACTOR_def double_div_def double_round_def
      ilog2_ratio_def rne_div_def compute_floorlog Let_def)

lemma double_mul_min: "double_mul MIN_LOAD_FACTOR (7881299347898368, e) = (5280470563091907, e - 2)"
  by (simp add: double_mul_def min_load_factor_eq double_round_def ilog2_ratio_def rne_div_def
      compute_floorlog Let_def)

lemma size_of_double_shift:
  "size_of_double (m, int k - int c) = m * 2 ^ k div 2 ^ c"
proof (cases "c \<le> k")
  case True
  then obtain d where "k = c + d"
    by (auto simp add: le_iff_add)
  then show ?thesis
    by (simp add: size_of_double_def power_add)
next
  case False
  then obtain d where c: "c = k + d" and "0 < d"
    by (metis add_cancel_right_right gr0I le_iff_add less_imp_le_nat not_le_imp_less not_less_iff_gr_or_eq)
  then have "nat (int d) = d" "\<not> 0 \<le> int k - int c"
    by simp_all
  with c show ?thesis
    by (simp add: size_of_double_def power_add)
qed

lemma entries_capacity_no_wrap:
  assumes "k < 61"
  shows "(2 ^ k * GROUP_ENTRIES) mod 2 ^ 64 = 2 ^ k * 7"
proof -
  have "(2::nat) ^ k \<le> 2 ^ 60"
    using assms by (intro power_increasing) simp_all
  then have "(2::nat) ^ k * 7 < 2 ^ 64"
    by simp
  then show ?thesis
    by (simp add: GROUP_ENTRIES_def)
qed

lemma max_count_of_power:
  assumes "k < 61"
  shows "max_count_of (2 ^ k) = 5280470563091907 * 2 ^ k div 2 ^ 50"
  unfolding max_count_of_def entries_capacity_no_wrap [OF assms]
  using size_of_double_shift [of 5280470563091907 k 50]
  by (simp add: double_of_size_groups double_mul_max)

lemma min_count_of_power:
  assumes "k < 61"
  shows "min_count_of (2 ^ k) = 5280470563091907 * 2 ^ k div 2 ^ 52"
  unfolding min_count_of_def entries_capacity_no_wrap [OF assms]
  using size_of_double_shift [of 5280470563091907 k 52]
  by (simp add: double_of_size_groups double_mul_min)

lemma h64_should_grow_up_iff: "h64_should_grow_up h \<longleftrightarrow> max_count_of (size_in_groups h) < count h"
  by (simp add: h64_should_grow_up_def max_count_of_def)

lemma h64_should_grow_down_iff:
  "h64_should_grow_down h \<longleftrightarrow> count h < min_count_of (size_in_groups h) \<and> MIN_SIZE < size_in_groups h"
  by (simp add: h64_should_grow_down_def min_count_of_def)

lemma max_count_of_4: "max_count_of 4 = 18"
  using max_count_of_power [of 2] by simp

lemma max_count_of_8: "max_count_of 8 = 37"
  using max_count_of_power [of 3] by simp

lemma min_count_of_8: "min_count_of 8 = 9"
  using min_count_of_power [of 3] by simp

lemma max_count_of_less: "k < 61 \<Longrightarrow> max_count_of (2 ^ k) < 5 * 2 ^ k"
  by (simp add: max_count_of_power less_mult_imp_div_less)

lemma max_count_of_ge:
  assumes "k < 61"
  shows "4 * 2 ^ k \<le> max_count_of (2 ^ k)"
proof -
  have "4 * 2 ^ k = (4 * 2 ^ 50) * 2 ^ k div (2 ^ 50 :: nat)"
    by simp
  also have "\<dots> \<le> 5280470563091907 * 2 ^ k div 2 ^ 50"
    by (intro div_le_mono mult_le_mono) simp_all
  finally show ?thesis
    by (simp add: max_count_of_power [OF assms])
qed

lemma max_count_of_double:
  assumes "Suc k < 61"
  shows "max_count_of (2 ^ k) + 1 \<le> max_count_of (2 ^ Suc k)"
proof -
  have "max_count_of (2 ^ k) + 1 \<le> 5 * 2 ^ k"
    using max_count_of_less [of k] assms by simp
  also have "\<dots> \<le> 4 * 2 ^ Suc k"
    by simp
  also have "\<dots> \<le> max_count_of (2 ^ Suc k)"
    using assms by (rule max_count_of_ge)
  finally show ?thesis .
qed

lemma min_count_of_le:
  assumes "Suc k < 61"
  shows "min_count_of (2 ^ Suc k) \<le> max_count_of (2 ^ k)"
proof -
  have "5280470563091907 * 2 ^ Suc k div 2 ^ 52 \<le> 5280470563091907 * 2 ^ Suc k div (2 ^ 51 :: nat)"
    by (intro div_le_mono2) simp_all
  also have "\<dots> = 5280470563091907 * 2 ^ k div (2 ^ 50 :: nat)"
    by simp
  finally show ?thesis
    using assms by (simp only: max_count_of_power min_count_of_power Suc_lessD)
qed

section \<open>The candidates of a group\<close>

text \<open>\<^verbatim>\<open>x & -x\<close> is the lowest set bit of \<open>x\<close>, and \<^verbatim>\<open>x ^ (x & -x)\<close> clears it.\<close>

lemma odd_and_minus:
  fixes y :: "'a::len word"
  assumes "odd y"
  shows "y AND - y = 1"
proof (rule bit_word_eqI)
  fix n
  assume n: "n < LENGTH('a)"
  show "bit (y AND - y) n \<longleftrightarrow> bit (1 :: 'a word) n"
  proof (cases n)
    case 0
    with assms show ?thesis
      by (simp add: bit_0 even_and_iff)
  next
    case (Suc j)
    have "even (y - 1)"
      using assms by simp
    from even_half_succ_eq [OF this] have "(y - 1) div 2 = y div 2"
      by simp
    then have "bit (y - 1) (Suc j) \<longleftrightarrow> bit y (Suc j)"
      by (simp add: bit_Suc)
    with n Suc show ?thesis
      by (simp add: minus_eq_not_minus_1 bit_simps)
  qed
qed

lemma and_minus_eq_ctz:
  fixes x :: "'a::len word"
  assumes "x \<noteq> 0"
  shows "x AND - x = 2 ^ ctz x"
proof -
  let ?n = "ctz x"
  let ?y = "drop_bit ?n x"
  have n: "?n < LENGTH('a)" and set: "bit x ?n"
    using assms by (simp_all add: ctz_nonzero ctz_is_set)
  have "take_bit ?n x = 0"
    by (rule bit_word_eqI) (simp add: bit_simps ctz_least)
  then have x: "x = push_bit ?n ?y"
    using bits_ident [of ?n x] by simp
  have "odd ?y"
    using set by (simp add: bit_iff_odd_drop_bit)
  then have "?y AND - ?y = 1"
    by (rule odd_and_minus)
  moreover have "push_bit ?n ?y AND - push_bit ?n ?y = push_bit ?n (?y AND - ?y)"
    by (simp only: push_bit_and push_bit_minus)
  ultimately have "push_bit ?n ?y AND - push_bit ?n ?y = 2 ^ ?n"
    by (simp only: push_bit_of_1)
  with x [symmetric] show ?thesis
    by simp
qed

lemma bit_clear_lowest:
  fixes x :: "'a::len word"
  assumes "x \<noteq> 0"
  shows "bit (x XOR (x AND - x)) j \<longleftrightarrow> bit x j \<and> j \<noteq> ctz x"
  using assms ctz_is_set [of x] ctz_nonzero [of x]
  by (auto simp add: and_minus_eq_ctz bit_simps dest: bit_imp_le_length)


lemma match_loop_Some:
  "match_loop h e es mb = Some idx \<Longrightarrow>
     bit mb idx \<and> h64_equals h e (es ! idx) \<and> (\<forall>j<idx. bit mb j \<longrightarrow> \<not> h64_equals h e (es ! j))"
proof (induction h e es mb rule: match_loop.induct)
  case (1 h e es mb)
  show ?case
  proof (cases "mb = 0")
    case True
    with "1.prems" show ?thesis
      by (simp add: match_loop.simps)
  next
    case False
    then have set: "bit mb (ctz mb)"
      by (intro ctz_is_set ctz_nonzero)
    show ?thesis
    proof (cases "h64_equals h e (es ! ctz mb)")
      case True
      with False "1.prems" have "idx = ctz mb"
        by (simp add: match_loop.simps [of h e es mb] Let_def)
      with True set show ?thesis
        by (auto dest: ctz_least)
    next
      case neq: False
      with False "1.prems" have "match_loop h e es (mb XOR (mb AND - mb)) = Some idx"
        by (simp add: match_loop.simps [of h e es mb] Let_def)
      with "1.IH" [OF False refl refl neq] have
        "bit (mb XOR (mb AND - mb)) idx \<and> h64_equals h e (es ! idx) \<and>
          (\<forall>j<idx. bit (mb XOR (mb AND - mb)) j \<longrightarrow> \<not> h64_equals h e (es ! j))"
        by simp
      with neq show ?thesis
        by (auto simp add: bit_clear_lowest [OF False])
    qed
  qed
qed

lemma match_loop_None:
  "match_loop h e es mb = None \<longleftrightarrow> (\<forall>j. bit mb j \<longrightarrow> \<not> h64_equals h e (es ! j))"
proof (induction h e es mb rule: match_loop.induct)
  case (1 h e es mb)
  show ?case
  proof (cases "mb = 0")
    case True
    then show ?thesis
      by (simp add: match_loop.simps)
  next
    case False
    then have set: "bit mb (ctz mb)"
      by (intro ctz_is_set ctz_nonzero)
    show ?thesis
    proof (cases "h64_equals h e (es ! ctz mb)")
      case True
      with False set show ?thesis
        by (auto simp add: match_loop.simps [of h e es mb] Let_def)
    next
      case neq: False
      with False have "match_loop h e es mb = match_loop h e es (mb XOR (mb AND - mb))"
        by (simp add: match_loop.simps [of h e es mb] Let_def)
      with "1.IH" [OF False refl refl neq] neq show ?thesis
        by (auto simp add: bit_clear_lowest [OF False])
    qed
  qed
qed

lemma bit_group_match_inserted:
  assumes "length (hints g) = GROUP_ENTRIES"
  shows "bit (group_match_inserted g hint) j \<longleftrightarrow>
    j < GROUP_ENTRIES \<and> hints g ! j = hint \<and> bit (status g) j"
  using assms
  by (auto simp add: group_match_inserted_def hints_movemask_def GROUP_ENTRIES_def
      entries_mask_eq bit_simps)

section \<open>Example callbacks and evaluation\<close>

text \<open>
  A handle carries its key in the bits above the low four, so sixteen handles share a
  key. The hash spreads the key over the low bits (the home group) and the high byte
  (the hint); it does not use the seed.
\<close>

definition key_hasher :: "ptr \<Rightarrow> 64 word \<Rightarrow> 64 word" where
  "key_hasher p s = drop_bit 4 p * 0x0100000000000001"

definition key_equals :: "ptr \<Rightarrow> ptr \<Rightarrow> int" where
  "key_equals a b = (if drop_bit 4 a = drop_bit 4 b then 1 else 0)"

lemma max_count_28: "size_of_double (double_mul MAX_LOAD_FACTOR (double_of_size 28)) = 18"
  by (simp add: size_of_double_def double_mul_def MAX_LOAD_FACTOR_def double_of_size_def
      double_round_def ilog2_ratio_def rne_div_def compute_floorlog Let_def)

lemma min_count_28: "size_of_double (double_mul MIN_LOAD_FACTOR (double_of_size 28)) = 4"
  by (simp add: size_of_double_def double_mul_def double_div_def MIN_LOAD_FACTOR_def
      MAX_LOAD_FACTOR_def double_of_size_def double_round_def ilog2_ratio_def rne_div_def
      compute_floorlog Let_def)

lemma list_update_numeral: "(x # xs)[numeral n := y] = x # xs[pred_numeral n := y]"
  by (simp add: numeral_eq_Suc)

lemma replicate_numeral: "replicate (numeral k) x = x # replicate (pred_numeral k) x"
  by (simp add: numeral_eq_Suc)

text \<open>The equations that evaluate an operation on a table written out in full.\<close>

lemmas h64_eval =
  h64_create_def h64_init_def xalloc_def sizeof_h64_group_def sizeof_h64_def NULL_def DEFAULT_SIZE_def MIN_SIZE_def is_power_of_2_def
  zero_group_def GROUP_ENTRIES_def h64_insert_def h64_insert_new_eq h64_erase_def h64_find_def
  bind_outcome_def h64_should_grow_up_def h64_should_grow_down_def
  h64_hash_def hash_hint_def h64_find_entry_def h64_find_empty_entry_def
  ps_init_def ps_position_def ps_next_def
  group_match_inserted_def hints_movemask_def group_was_full_def group_is_full_def ENTRIES_MASK_def
  install_entry_def group_insert_def group_update_def group_erase_entry_def
  find_result_init_def h64_equals_def
  key_hasher_def key_equals_def ctz_rec mixer64_def
  find_entry_loop.simps find_empty_entry_loop.simps match_loop.simps
  list_update_numeral replicate_numeral max_count_28 min_count_28

definition ex_full_group :: h64_group where
  "ex_full_group = \<lparr>status = 0xFF, hints = [1, 5, 9, 13, 17, 21, 25],
     entries = [0x10, 0x50, 0x90, 0xD0, 0x110, 0x150, 0x190]\<rparr>"

definition ex_erased_group :: h64_group where
  "ex_erased_group = \<lparr>status = 0xFB, hints = [1, 5, 0, 13, 17, 21, 25],
     entries = [0x10, 0x50, 0, 0xD0, 0x110, 0x150, 0x190]\<rparr>"

definition ex_full_table :: h64 where
  "ex_full_table = \<lparr>hasher = key_hasher, equals = key_equals, seed = mixer64 0x2000,
     groups = [zero_group, ex_full_group, zero_group, zero_group], size_in_groups = 4, count = 7\<rparr>"

lemma ex_full_table_erase:
  "h64_erase [] ex_full_table 0x90 =
     Some (Inr ([], ex_full_table\<lparr>groups := [zero_group, ex_erased_group, zero_group, zero_group],
                                  count := 6\<rparr>, 0x90))"
  by (simp add: h64_eval ex_full_table_def ex_full_group_def ex_erased_group_def)

lemma ex_full_table_insert:
  "h64_insert [] ex_full_table 0x20 =
     Some (Inr ([], ex_full_table\<lparr>groups := [zero_group, ex_full_group,
        \<lparr>status = 1, hints = [2, 0, 0, 0, 0, 0, 0], entries = [0x20, 0, 0, 0, 0, 0, 0]\<rparr>,
        zero_group], count := 8\<rparr>))"
  by (simp add: h64_eval ex_full_table_def ex_full_group_def)

lemma ex_full_table_insert_new:
  "h64_insert_new [] ex_full_table 0x210 =
     Some (Inr ([], ex_full_table\<lparr>groups := [zero_group, ex_full_group,
        \<lparr>status = 1, hints = [33, 0, 0, 0, 0, 0, 0], entries = [0x210, 0, 0, 0, 0, 0, 0]\<rparr>,
        zero_group], count := 8\<rparr>))"
  by (simp add: h64_eval ex_full_table_def ex_full_group_def)

section \<open>C3: erase at an index leaves the was-full bit\<close>

text \<open>
  Claim C3. For a valid slot index, \<^verbatim>\<open>group_erase_entry\<close> returns the entry that was in the
  slot, sets the entry to \<^verbatim>\<open>NULL\<close>, the hint to 0 and the presence bit to 0, and changes
  no other entry, hint or status bit, the was-full bit (bit 7) included. No operation
  clears a was-full bit while the group array lives: \<^verbatim>\<open>group_insert\<close> and
  \<^verbatim>\<open>group_update\<close> keep it, and an insert, insert-new or erase that has not allocated a
  new array (it returns the heap it was given) leaves every group that was full before
  was-full.
\<close>

theorem erase_at_index_keeps_was_full:
  "(idx < GROUP_ENTRIES \<longrightarrow>
      (\<exists>g'. group_erase_entry g idx = Inr (entries g ! idx, g') \<and>
            entries g' = (entries g)[idx := NULL] \<and>
            hints g' = (hints g)[idx := 0] \<and>
            (\<forall>j. bit (status g') j \<longleftrightarrow> bit (status g) j \<and> j \<noteq> idx) \<and>
            group_was_full g' = group_was_full g)) \<and>
   (group_insert gi ei hint ii = Inr gi' \<and> group_was_full gi \<longrightarrow> group_was_full gi') \<and>
   (group_update gu eu iu = Inr gu' \<and> group_was_full gu \<longrightarrow> group_was_full gu') \<and>
   (h64_insert w1 h1 e1 = Some (Inr (w1, h1')) \<longrightarrow> was_full_kept h1 h1') \<and>
   (h64_insert_new w2 h2 e2 = Some (Inr (w2, h2')) \<longrightarrow> was_full_kept h2 h2') \<and>
   (h64_erase w3 h3 e3 = Some (Inr (w3, h3', ret)) \<longrightarrow> was_full_kept h3 h3')"
proof (intro conjI impI)
  assume "idx < GROUP_ENTRIES"
  then show "\<exists>g'. group_erase_entry g idx = Inr (entries g ! idx, g') \<and>
            entries g' = (entries g)[idx := NULL] \<and>
            hints g' = (hints g)[idx := 0] \<and>
            (\<forall>j. bit (status g') j \<longleftrightarrow> bit (status g) j \<and> j \<noteq> idx) \<and>
            group_was_full g' = group_was_full g"
    by (simp add: group_erase_entry_def group_was_full_iff bit_clear_slot GROUP_ENTRIES_def)
next
  assume "group_insert gi ei hint ii = Inr gi' \<and> group_was_full gi"
  then show "group_was_full gi'"
    by (auto dest: group_insert_keeps_was_full)
next
  assume "group_update gu eu iu = Inr gu' \<and> group_was_full gu"
  then show "group_was_full gu'"
    by (auto dest: group_update_keeps_was_full)
next
  assume "h64_insert w1 h1 e1 = Some (Inr (w1, h1'))"
  then show "was_full_kept h1 h1'"
    by (rule h64_insert_kept)
next
  assume "h64_insert_new w2 h2 e2 = Some (Inr (w2, h2'))"
  then show "was_full_kept h2 h2'"
    by (rule h64_insert_new_kept)
next
  assume "h64_erase w3 h3 e3 = Some (Inr (w3, h3', ret))"
  then show "was_full_kept h3 h3'"
    by (rule h64_erase_kept)
qed

theorem erase_at_index_keeps_was_full_witness:
  "group_erase_entry ex_full_group 2 = Inr (0x90, ex_erased_group) \<and>
   group_was_full ex_erased_group \<and>
   group_insert ex_erased_group 0x90 9 2 = Inr ex_full_group \<and>
   group_was_full ex_full_group \<and>
   group_update ex_full_group 0x91 2 = Inr (ex_full_group\<lparr>entries := [0x10, 0x50, 0x91, 0xD0, 0x110, 0x150, 0x190]\<rparr>) \<and>
   group_was_full (ex_full_group\<lparr>entries := [0x10, 0x50, 0x91, 0xD0, 0x110, 0x150, 0x190]\<rparr>) \<and>
   was_full_kept ex_full_table
     (ex_full_table\<lparr>groups := [zero_group, ex_full_group,
        \<lparr>status = 1, hints = [2, 0, 0, 0, 0, 0, 0], entries = [0x20, 0, 0, 0, 0, 0, 0]\<rparr>,
        zero_group], count := 8\<rparr>) \<and>
   was_full_kept ex_full_table
     (ex_full_table\<lparr>groups := [zero_group, ex_full_group,
        \<lparr>status = 1, hints = [33, 0, 0, 0, 0, 0, 0], entries = [0x210, 0, 0, 0, 0, 0, 0]\<rparr>,
        zero_group], count := 8\<rparr>) \<and>
   was_full_kept ex_full_table
     (ex_full_table\<lparr>groups := [zero_group, ex_erased_group, zero_group, zero_group], count := 6\<rparr>)"
proof -
  have erase: "group_erase_entry ex_full_group 2 = Inr (0x90, ex_erased_group)"
    by (simp add: h64_eval ex_full_group_def ex_erased_group_def)
  have insert: "group_insert ex_erased_group 0x90 9 2 = Inr ex_full_group"
    by (simp add: h64_eval ex_full_group_def ex_erased_group_def)
  have update: "group_update ex_full_group 0x91 2 =
      Inr (ex_full_group\<lparr>entries := [0x10, 0x50, 0x91, 0xD0, 0x110, 0x150, 0x190]\<rparr>)"
    by (simp add: h64_eval ex_full_group_def)
  have full: "group_was_full ex_full_group" "group_was_full ex_erased_group"
    by (simp_all add: h64_eval ex_full_group_def ex_erased_group_def)
  show ?thesis
    using erase_at_index_keeps_was_full [where idx = 2 and g = ex_full_group
        and gi = ex_erased_group and ei = "0x90" and hint = 9 and ii = 2 and gi' = ex_full_group
        and gu = ex_full_group and eu = "0x91" and iu = 2
        and gu' = "ex_full_group\<lparr>entries := [0x10, 0x50, 0x91, 0xD0, 0x110, 0x150, 0x190]\<rparr>"
        and ?w1.0 = "[]" and ?h1.0 = ex_full_table and ?e1.0 = "0x20"
        and ?w2.0 = "[]" and ?h2.0 = ex_full_table and ?e2.0 = "0x210"
        and ?w3.0 = "[]" and ?h3.0 = ex_full_table and ?e3.0 = "0x90"]
      erase insert update full ex_full_table_insert ex_full_table_insert_new ex_full_table_erase
    by (simp add: GROUP_ENTRIES_def)
qed

section \<open>C2: the probe sequence visits every group once\<close>

text \<open>
  \<open>probe_positions ps n\<close>: the positions of the first \<open>n\<close> iterations of the loop
  \<^verbatim>\<open>ps_position\<close>, \<^verbatim>\<open>ps_next\<close>, \<open>\<dots>\<close> from the probe sequence \<open>ps\<close>.
\<close>

definition triangle :: "nat \<Rightarrow> nat" where
  "triangle i = i * (i + 1) div 2"

lemma triangle_double: "2 * triangle i = i * (i + 1)"
  unfolding triangle_def by simp

lemma triangle_mono: "j \<le> i \<Longrightarrow> triangle j \<le> triangle i"
  unfolding triangle_def by (intro div_le_mono mult_le_mono) simp_all

lemma odd_coprime_power2: "odd (a::nat) \<Longrightarrow> coprime (2 ^ n) a"
  by (simp add: coprime_commute)

lemma triangle_inj_mod:
  assumes i: "i < 2 ^ k" and j: "j < 2 ^ k" and ji: "j \<le> i"
    and eq: "(s + triangle i) mod 2 ^ k = (s + triangle j) mod 2 ^ k"
  shows "i = j"
proof -
  have "(2::nat) ^ k dvd (s + triangle i) - (s + triangle j)"
    using eq triangle_mono [OF ji] by (simp add: mod_eq_dvd_iff_nat)
  then have "(2::nat) ^ k dvd triangle i - triangle j"
    by simp
  then have "2 * 2 ^ k dvd 2 * (triangle i - triangle j)"
    by (rule mult_dvd_mono [OF dvd_refl])
  also have "2 * (triangle i - triangle j) = i * (i + 1) - j * (j + 1)"
    by (simp add: diff_mult_distrib2 triangle_double)
  also have "\<dots> = (i - j) * (i + j + 1)"
  proof -
    obtain d where "i = j + d"
      using ji by (auto simp add: le_iff_add)
    then show ?thesis
      by (simp add: algebra_simps)
  qed
  finally have dvd: "(2::nat) ^ Suc k dvd (i - j) * (i + j + 1)"
    by simp
  show ?thesis
  proof (cases "odd (i - j)")
    case True
    then have "coprime ((2::nat) ^ Suc k) (i - j)"
      by (rule odd_coprime_power2)
    with dvd have "(2::nat) ^ Suc k dvd i + j + 1"
      by (simp only: coprime_dvd_mult_right_iff)
    moreover have "i + j + 1 < 2 ^ Suc k" "0 < i + j + 1"
      using i j by simp_all
    ultimately show ?thesis
      by (auto dest: dvd_imp_le)
  next
    case False
    then have "odd (i + j + 1)"
      using ji by auto
    then have "coprime ((2::nat) ^ Suc k) (i + j + 1)"
      by (rule odd_coprime_power2)
    with dvd have "(2::nat) ^ Suc k dvd i - j"
      by (simp only: coprime_dvd_mult_left_iff)
    moreover have "i - j < 2 ^ Suc k"
      using i by simp
    ultimately have "i - j = 0"
      by (auto dest: dvd_imp_le)
    with ji show ?thesis
      by simp
  qed
qed


lemma unat_triangle_word:
  fixes i :: "64 word"
  assumes "unat i < 2 ^ 63"
  shows "unat (i * (i + 1) div 2) = triangle (unat i) mod 2 ^ 63"
proof -
  let ?I = "unat i"
  have i1: "unat (i + 1) = ?I + 1"
    using assms by (simp add: unat_word_ariths)
  have "unat (i * (i + 1) div 2) = unat (i * (i + 1)) div 2"
    by (simp add: unat_div)
  also have "unat (i * (i + 1)) = (?I * (?I + 1)) mod 2 ^ 64"
    using unat_word_ariths(2) [of i "i + 1"] by (simp add: i1)
  also have "?I * (?I + 1) = 2 * triangle ?I"
    by (simp add: triangle_double)
  also have "(2 * triangle ?I) mod 2 ^ 64 = 2 * (triangle ?I mod 2 ^ 63)"
    by (simp add: mult_mod_right)
  finally show ?thesis
    by simp
qed

lemma ps_position_mod:
  fixes s i :: "64 word"
  assumes k: "k < 64" and i: "unat i < 2 ^ 63"
  shows "ps_position \<lparr>start = s, iteration = i, size_mask = 2 ^ k - 1\<rparr> =
    (unat s + triangle (unat i)) mod 2 ^ k"
proof -
  let ?w = "s + i * (i + 1) div 2"
  have dvd63: "(2::nat) ^ k dvd 2 ^ 63"
    using k by (intro le_imp_power_dvd) simp
  have dvd64: "(2::nat) ^ k dvd 2 ^ 64"
    using k by (intro le_imp_power_dvd) simp
  have "ps_position \<lparr>start = s, iteration = i, size_mask = 2 ^ k - 1\<rparr> = unat (?w AND mask k)"
    by (simp add: ps_position_def mask_eq_exp_minus_1)
  also have "\<dots> = take_bit k (unat ?w)"
    by (simp add: unsigned_take_bit_eq flip: take_bit_eq_mask)
  also have "\<dots> = unat ?w mod 2 ^ k"
    by (rule take_bit_eq_mod)
  also have "unat ?w = (unat s + triangle (unat i) mod 2 ^ 63) mod 2 ^ 64"
    using unat_word_ariths(1) [of s "i * (i + 1) div 2"]
    by (simp add: unat_triangle_word [OF i])
  also have "\<dots> mod 2 ^ k = (unat s + triangle (unat i) mod 2 ^ 63) mod 2 ^ k"
    using dvd64 by (rule mod_mod_cancel)
  also have "\<dots> = (unat s + triangle (unat i) mod 2 ^ 63 mod 2 ^ k) mod 2 ^ k"
    by (simp add: mod_add_right_eq)
  also have "triangle (unat i) mod 2 ^ 63 mod 2 ^ k = triangle (unat i) mod 2 ^ k"
    using dvd63 by (rule mod_mod_cancel)
  also have "(unat s + triangle (unat i) mod 2 ^ k) mod 2 ^ k = (unat s + triangle (unat i)) mod 2 ^ k"
    by (simp add: mod_add_right_eq)
  finally show ?thesis .
qed


definition probe_positions :: "probe_sequence \<Rightarrow> nat \<Rightarrow> nat list" where
  "probe_positions ps n = map (\<lambda>i. ps_position ((ps_next ^^ i) ps)) [0..<n]"

lemma ps_next_funpow: "(ps_next ^^ i) ps = ps\<lparr>iteration := iteration ps + of_nat i\<rparr>"
  by (induction i) (simp_all add: ps_next_def)

lemma probe_position_nth:
  assumes k: "k < 64" and i: "i < 2 ^ k"
  shows "ps_position ((ps_next ^^ i) \<lparr>start = s, iteration = 0, size_mask = 2 ^ k - 1\<rparr>) =
    (unat s + triangle i) mod 2 ^ k"
proof -
  have "(2::nat) ^ k \<le> 2 ^ 63"
    using k by (intro power_increasing) simp_all
  with i have i63: "i < 2 ^ 63"
    by simp
  then have "unat (of_nat i :: 64 word) = i"
    by (simp add: unat_of_nat)
  with i63 ps_position_mod [OF k, of "of_nat i" s] show ?thesis
    by (simp add: ps_next_funpow)
qed

lemma probe_positions_inj:
  assumes "k < 64"
  shows "inj_on (\<lambda>i. ps_position ((ps_next ^^ i) \<lparr>start = s, iteration = 0, size_mask = 2 ^ k - 1\<rparr>))
    {0..<2 ^ k}"
proof (rule inj_onI)
  let ?ps = "\<lparr>start = s, iteration = 0, size_mask = 2 ^ k - 1\<rparr>"
  let ?f = "\<lambda>i. ps_position ((ps_next ^^ i) ?ps)"
  fix i j
  assume "i \<in> {0..<2 ^ k}" "j \<in> {0..<2 ^ k}" and eq: "?f i = ?f j"
  then have i: "i < 2 ^ k" and j: "j < 2 ^ k"
    by simp_all
  from eq have eq': "(unat s + triangle i) mod 2 ^ k = (unat s + triangle j) mod 2 ^ k"
    by (simp add: probe_position_nth [OF assms] i j)
  show "i = j"
  proof (cases "j \<le> i")
    case True
    show ?thesis
      by (rule triangle_inj_mod [OF i j True eq'])
  next
    case False
    then have "i \<le> j"
      by simp
    then have "j = i"
      by (rule triangle_inj_mod [OF j i _ eq' [symmetric]])
    then show ?thesis ..
  qed
qed

lemma probe_positions_set:
  assumes "k < 64"
  shows "set (probe_positions \<lparr>start = s, iteration = 0, size_mask = 2 ^ k - 1\<rparr> (2 ^ k)) = {0..<2 ^ k}"
proof -
  let ?ps = "\<lparr>start = s, iteration = 0, size_mask = 2 ^ k - 1\<rparr>"
  have dist: "distinct (probe_positions ?ps (2 ^ k))"
    using probe_positions_inj [OF assms, of s] by (simp add: probe_positions_def distinct_map)
  have "set (probe_positions ?ps (2 ^ k)) \<subseteq> {0..<2 ^ k}"
    by (auto simp add: probe_positions_def probe_position_nth [OF assms])
  moreover have "card (set (probe_positions ?ps (2 ^ k))) = card {0..<(2::nat) ^ k}"
    using distinct_card [OF dist] by (simp add: probe_positions_def)
  ultimately show ?thesis
    by (intro card_subset_eq) simp_all
qed

text \<open>
  Claim C2. For a table of \<open>2 ^ k\<close> groups (\<open>k < 64\<close>, the sizes a \<^verbatim>\<open>size_t\<close> can hold) and
  every start \<open>s\<close>, the positions of the first \<open>2 ^ k\<close> iterations of the probe sequence
  are pairwise distinct and are exactly the positions \<open>0, \<dots>, 2 ^ k - 1\<close>: a permutation.
  The product \<^verbatim>\<open>i * (i + 1)\<close> may wrap around in 64 bits; the positions are the same.
\<close>

theorem probe_sequence_permutation:
  assumes "k < 64"
  shows "ps_init hash (2 ^ k) = \<lparr>start = hash AND (2 ^ k - 1), iteration = 0, size_mask = 2 ^ k - 1\<rparr> \<and>
    distinct (probe_positions \<lparr>start = s, iteration = 0, size_mask = 2 ^ k - 1\<rparr> (2 ^ k)) \<and>
    set (probe_positions \<lparr>start = s, iteration = 0, size_mask = 2 ^ k - 1\<rparr> (2 ^ k)) = {0..<2 ^ k}"
proof (intro conjI)
  show "ps_init hash (2 ^ k) = \<lparr>start = hash AND (2 ^ k - 1), iteration = 0, size_mask = 2 ^ k - 1\<rparr>"
    by (simp add: ps_init_def Let_def)
  show "distinct (probe_positions \<lparr>start = s, iteration = 0, size_mask = 2 ^ k - 1\<rparr> (2 ^ k))"
    using probe_positions_inj [OF assms, of s] by (simp add: probe_positions_def distinct_map)
  show "set (probe_positions \<lparr>start = s, iteration = 0, size_mask = 2 ^ k - 1\<rparr> (2 ^ k)) = {0..<2 ^ k}"
    using assms by (rule probe_positions_set)
qed

theorem probe_sequence_permutation_witness:
  "(3::nat) < 64 \<and>
   ps_init 0xAB (2 ^ 3) = \<lparr>start = 3, iteration = 0, size_mask = 7\<rparr> \<and>
   probe_positions \<lparr>start = 3, iteration = 0, size_mask = 7\<rparr> 8 = [3, 4, 6, 1, 5, 2, 0, 7] \<and>
   distinct (probe_positions \<lparr>start = 3, iteration = 0, size_mask = 7\<rparr> 8) \<and>
   set (probe_positions \<lparr>start = 3, iteration = 0, size_mask = 7\<rparr> 8) = {0..<8}"
proof -
  have "probe_positions \<lparr>start = 3, iteration = 0, size_mask = 7\<rparr> 8 = [3, 4, 6, 1, 5, 2, 0, 7]"
    by (simp add: probe_positions_def ps_next_funpow ps_position_def upt_rec)
  with probe_sequence_permutation [of 3 "0xAB" 3] show ?thesis
    by simp
qed

section \<open>What the probe loops return\<close>

text \<open>\<open>probe_at seq n\<close>: the position the loop visits in its iteration \<open>n\<close>, started at \<open>seq\<close>.\<close>

definition probe_at :: "probe_sequence \<Rightarrow> nat \<Rightarrow> nat" where
  "probe_at seq n = ps_position ((ps_next ^^ n) seq)"

lemma probe_at_0: "probe_at seq 0 = ps_position seq"
  by (simp add: probe_at_def)

lemma probe_at_Suc: "probe_at seq (Suc n) = probe_at (ps_next seq) n"
  by (simp add: probe_at_def funpow_swap1)

lemma size_mask_funpow: "size_mask ((ps_next ^^ n) seq) = size_mask seq"
  by (simp add: ps_next_funpow)

lemma probe_at_less:
  assumes "size_mask seq = 2 ^ k - 1"
  shows "probe_at seq n < 2 ^ k"
proof -
  let ?s = "(ps_next ^^ n) seq"
  let ?x = "start ?s + iteration ?s * (iteration ?s + 1) div 2"
  have "?x AND (2 ^ k - 1) = take_bit k ?x"
    by (simp add: take_bit_eq_mask mask_eq_exp_minus_1)
  then have "unat (?x AND (2 ^ k - 1)) = take_bit k (unat ?x)"
    by (simp add: unsigned_take_bit_eq)
  also have "\<dots> < 2 ^ k"
    by (rule take_bit_nat_less_exp)
  finally show ?thesis
    using assms by (simp add: probe_at_def ps_position_def size_mask_funpow Let_def)
qed

lemma find_empty_entry_loop_Some:
  assumes "find_empty_entry_loop h seq = Some r" and "r = Inr r'"
  shows "\<exists>n. r' = find_result_init (Some (probe_at seq n))
                 (ctz (NOT (ucast (status (groups h ! probe_at seq n)) :: 32 word))) True \<and>
             \<not> group_is_full (groups h ! probe_at seq n) \<and>
             (\<forall>m<n. group_is_full (groups h ! probe_at seq m)) \<and>
             (\<forall>m\<le>n. probe_at seq m < length (groups h))"
  using assms
proof (induct rule: find_empty_entry_loop.raw_induct [rotated 1, consumes 1, case_names step])
  case (step loop h seq r)
  from step(2,3) have inb: "ps_position seq < length (groups h)"
    by (auto simp add: Let_def split: if_splits)
  show ?case
  proof (cases "group_is_full (groups h ! ps_position seq)")
    case False
    with step(2,3) inb show ?thesis
      by (intro exI [of _ 0]) (simp add: probe_at_0 Let_def)
  next
    case True
    with step(2) inb have "loop h (ps_next seq) = Some r"
      by (simp add: Let_def)
    from step(1) [OF this step(3)] obtain n where n:
      "r' = find_result_init (Some (probe_at (ps_next seq) n))
             (ctz (NOT (ucast (status (groups h ! probe_at (ps_next seq) n)) :: 32 word))) True"
      "\<not> group_is_full (groups h ! probe_at (ps_next seq) n)"
      "\<forall>m<n. group_is_full (groups h ! probe_at (ps_next seq) m)"
      "\<forall>m\<le>n. probe_at (ps_next seq) m < length (groups h)"
      by blast
    show ?thesis
    proof (intro exI [of _ "Suc n"] conjI allI impI)
      fix m
      assume "m < Suc n"
      with n(3) True show "group_is_full (groups h ! probe_at seq m)"
        by (cases m) (simp_all add: probe_at_0 probe_at_Suc)
    next
      fix m
      assume "m \<le> Suc n"
      with n(4) inb show "probe_at seq m < length (groups h)"
        by (cases m) (simp_all add: probe_at_0 probe_at_Suc)
    qed (use n in \<open>simp_all add: probe_at_Suc\<close>)
  qed
qed


lemma find_empty_entry_loop_empty:
  "groups h = [] \<Longrightarrow> find_empty_entry_loop h seq = Some (Inl Out_of_bounds)"
  by (subst find_empty_entry_loop.simps) (simp add: Let_def)

definition group_candidate :: "h64 \<Rightarrow> ptr \<Rightarrow> 8 word \<Rightarrow> h64_group \<Rightarrow> nat option" where
  "group_candidate h e hint g = match_loop h e (entries g) (group_match_inserted g hint)"

lemma find_entry_loop_unfold:
  "find_entry_loop h e hint seq =
     (if \<not> ps_position seq < length (groups h) then Some (Inl Out_of_bounds)
      else
        case group_candidate h e hint (groups h ! ps_position seq) of
          Some idx \<Rightarrow> Some (Inr (find_result_init (Some (ps_position seq)) idx True))
        | None \<Rightarrow>
            if \<not> group_was_full (groups h ! ps_position seq)
            then Some (Inr (find_result_init None (2 ^ 64 - 1) False))
            else find_entry_loop h e hint (ps_next seq))"
  by (subst find_entry_loop.simps) (simp add: Let_def group_candidate_def)

lemma find_entry_loop_empty:
  "groups h = [] \<Longrightarrow> find_entry_loop h e hint seq = Some (Inl Out_of_bounds)"
  by (subst find_entry_loop_unfold) simp

lemma find_entry_loop_Some:
  assumes "find_entry_loop h e hint seq = Some r" and "r = Inr r'"
  shows "\<exists>n. (\<forall>m<n. group_was_full (groups h ! probe_at seq m) \<and>
                     group_candidate h e hint (groups h ! probe_at seq m) = None) \<and>
             (\<forall>m\<le>n. probe_at seq m < length (groups h)) \<and>
             (case group_candidate h e hint (groups h ! probe_at seq n) of
                Some idx \<Rightarrow> r' = find_result_init (Some (probe_at seq n)) idx True
              | None \<Rightarrow> \<not> group_was_full (groups h ! probe_at seq n) \<and>
                  r' = find_result_init None (2 ^ 64 - 1) False)"
  using assms
proof (induct rule: find_entry_loop.raw_induct [rotated 1, consumes 1, case_names step])
  case (step loop h e hint seq r)
  let ?g = "groups h ! ps_position seq"
  from step(2,3) have inb: "ps_position seq < length (groups h)"
    by (auto simp add: Let_def split: if_splits)
  show ?case
  proof (cases "group_candidate h e hint ?g = None \<and> group_was_full ?g")
    case False
    with step(2,3) inb show ?thesis
      by (intro exI [of _ 0])
        (auto simp add: probe_at_0 Let_def group_candidate_def split: option.splits if_splits)
  next
    case True
    with step(2) inb have "loop h e hint (ps_next seq) = Some r"
      by (simp add: Let_def group_candidate_def)
    from step(1) [OF this step(3)] obtain n where n:
      "\<forall>m<n. group_was_full (groups h ! probe_at (ps_next seq) m) \<and>
          group_candidate h e hint (groups h ! probe_at (ps_next seq) m) = None"
      "\<forall>m\<le>n. probe_at (ps_next seq) m < length (groups h)"
      "case group_candidate h e hint (groups h ! probe_at (ps_next seq) n) of
          Some idx \<Rightarrow> r' = find_result_init (Some (probe_at (ps_next seq) n)) idx True
        | None \<Rightarrow> \<not> group_was_full (groups h ! probe_at (ps_next seq) n) \<and>
            r' = find_result_init None (2 ^ 64 - 1) False"
      by blast
    show ?thesis
    proof (intro exI [of _ "Suc n"] conjI allI impI)
      fix m
      assume "m < Suc n"
      with n(1) True show "group_was_full (groups h ! probe_at seq m)"
        by (cases m) (simp_all add: probe_at_0 probe_at_Suc)
    next
      fix m
      assume "m < Suc n"
      with n(1) True show "group_candidate h e hint (groups h ! probe_at seq m) = None"
        by (cases m) (simp_all add: probe_at_0 probe_at_Suc)
    next
      fix m
      assume "m \<le> Suc n"
      with n(2) inb show "probe_at seq m < length (groups h)"
        by (cases m) (simp_all add: probe_at_0 probe_at_Suc)
    next
      from n(3) show "case group_candidate h e hint (groups h ! probe_at seq (Suc n)) of
          Some idx \<Rightarrow> r' = find_result_init (Some (probe_at seq (Suc n))) idx True
        | None \<Rightarrow> \<not> group_was_full (groups h ! probe_at seq (Suc n)) \<and>
            r' = find_result_init None (2 ^ 64 - 1) False"
        by (simp add: probe_at_Suc cong: option.case_cong)
    qed
  qed
qed

lemma find_entry_loop_Inl:
  assumes "find_entry_loop h e hint seq = Some r" and "r = Inl err"
  shows "\<exists>n. \<not> probe_at seq n < length (groups h)"
  using assms
proof (induct rule: find_entry_loop.raw_induct [rotated 1, consumes 1, case_names step])
  case (step loop h e hint seq r)
  show ?case
  proof (cases "ps_position seq < length (groups h)")
    case False
    then show ?thesis
      by (intro exI [of _ 0]) (simp add: probe_at_0)
  next
    case True
    with step(2,3) have "loop h e hint (ps_next seq) = Some r"
      by (auto simp add: Let_def split: option.splits if_splits)
    from step(1) [OF this step(3)] obtain n where "\<not> probe_at (ps_next seq) n < length (groups h)"
      by blast
    then show ?thesis
      by (intro exI [of _ "Suc n"]) (simp add: probe_at_Suc)
  qed
qed


section \<open>The invariant of a table\<close>

text \<open>
  \<open>contents h\<close>: the handles stored in the table, with their multiplicity.
  \<open>group_wf\<close> and \<open>h64_wf\<close>: the invariant the operations keep. A slot's presence bit is set
  exactly when its entry is not \<^verbatim>\<open>NULL\<close>; a full group is marked was-full; the hint of an
  occupied slot is the high byte of the hash of its entry; the table has \<open>2 ^ k\<close> groups
  with \<open>2 \<le> k < 58\<close> (at least \<^verbatim>\<open>MIN_SIZE\<close>, and a byte count that does not wrap around),
  all of them in the array; and \<^verbatim>\<open>count\<close> is the number of stored handles.
  \<open>h64_wrapped\<close>: the table that \<^verbatim>\<open>h64_init\<close> returns when the byte count has wrapped
  around to 0. It has no group in its array and no entry, and \<^verbatim>\<open>size_in_groups\<close> is
  \<open>2 ^ 58\<close> or more: every operation on it reads beyond the array. \<open>h64_ok\<close>: one or the
  other.
\<close>

definition group_contents :: "h64_group \<Rightarrow> ptr multiset" where
  "group_contents g = mset (filter (\<lambda>e. e \<noteq> NULL) (entries g))"

definition contents :: "h64 \<Rightarrow> ptr multiset" where
  "contents h = sum_list (map group_contents (groups h))"

definition group_wf :: "(ptr \<Rightarrow> 64 word) \<Rightarrow> h64_group \<Rightarrow> bool" where
  "group_wf hash g \<longleftrightarrow>
     length (hints g) = GROUP_ENTRIES \<and> length (entries g) = GROUP_ENTRIES \<and>
     (\<forall>i<GROUP_ENTRIES. bit (status g) i \<longleftrightarrow> entries g ! i \<noteq> NULL) \<and>
     (group_is_full g \<longrightarrow> group_was_full g) \<and>
     (\<forall>i<GROUP_ENTRIES. bit (status g) i \<longrightarrow> hints g ! i = hash_hint (hash (entries g ! i)))"

definition h64_wf :: "h64 \<Rightarrow> bool" where
  "h64_wf h \<longleftrightarrow>
     (\<exists>k. 2 \<le> k \<and> k < 58 \<and> size_in_groups h = 2 ^ k) \<and>
     length (groups h) = size_in_groups h \<and>
     (\<forall>g\<in>set (groups h). group_wf (h64_hash h) g) \<and>
     count h = size (contents h)"

definition h64_wrapped :: "h64 \<Rightarrow> bool" where
  "h64_wrapped h \<longleftrightarrow> groups h = [] \<and> count h = 0 \<and> 2 ^ 58 \<le> size_in_groups h"

definition h64_ok :: "h64 \<Rightarrow> bool" where
  "h64_ok h \<longleftrightarrow> h64_wf h \<or> h64_wrapped h"

lemma mset_filter_update:
  assumes "i < length xs"
  shows "filter_mset P (mset (xs[i := y])) =
    (if P y then {#y#} else {#}) + (filter_mset P (mset xs) - (if P (xs ! i) then {#xs ! i#} else {#}))"
  using assms by (simp add: mset_update)

lemma free_slot:
  assumes "\<not> group_is_full g"
  defines "idx \<equiv> ctz (NOT (ucast (status g) :: 32 word))"
  shows "idx < GROUP_ENTRIES \<and> \<not> bit (status g) idx"
proof -
  let ?w = "NOT (ucast (status g) :: 32 word)"
  from assms(1) obtain i where i: "i < 7" "\<not> bit (status g) i"
    by (auto simp add: group_is_full_iff)
  then have "bit ?w i"
    by (simp add: bit_simps)
  then have le: "idx \<le> i"
    unfolding idx_def by (rule ctz_le)
  with i have "idx < 32"
    by simp
  then have "bit ?w idx"
    unfolding idx_def by (intro ctz_is_set) simp
  with le i show ?thesis
    by (simp add: bit_simps GROUP_ENTRIES_def)
qed

lemma group_insert_wf:
  assumes wf: "group_wf hash g" and idx: "idx < GROUP_ENTRIES" "\<not> bit (status g) idx"
    and e: "e \<noteq> NULL"
  shows "\<exists>g'. group_insert g e (hash_hint (hash e)) idx = Inr g' \<and> group_wf hash g' \<and>
    group_contents g' = add_mset e (group_contents g) \<and>
    (group_was_full g \<longrightarrow> group_was_full g') \<and>
    (\<forall>j. j < GROUP_ENTRIES \<longrightarrow> (bit (status g') j \<longleftrightarrow> bit (status g) j \<or> j = idx)) \<and>
    entries g' = (entries g)[idx := e]"
proof -
  let ?g1 = "g\<lparr>entries := (entries g)[idx := e],
                hints := (hints g)[idx := hash_hint (hash e)],
                status := status g OR 2 ^ idx\<rparr>"
  let ?g' = "if group_is_full ?g1 then ?g1\<lparr>status := 0xFF\<rparr> else ?g1"
  from wf idx have null: "entries g ! idx = NULL"
    by (auto simp add: group_wf_def)
  with idx have ins: "group_insert g e (hash_hint (hash e)) idx = Inr ?g'"
    by (simp add: group_insert_def slot_test_zero_iff Let_def)
  have bits: "bit (status ?g') j \<longleftrightarrow> bit (status g) j \<or> j = idx" if "j < GROUP_ENTRIES" for j
  proof (cases "group_is_full ?g1")
    case True
    with that have "bit (status g) j \<or> j = idx"
      by (auto simp add: group_is_full_iff bit_set_slot GROUP_ENTRIES_def)
    moreover have "bit (0xFF :: 8 word) j"
      using that by (simp only: bit_all_ones GROUP_ENTRIES_def)
    ultimately show ?thesis
      using True by simp
  next
    case False
    with that idx show ?thesis
      by (auto simp add: bit_set_slot GROUP_ENTRIES_def)
  qed
  have full: "group_is_full ?g' \<longrightarrow> group_was_full ?g'"
    by (auto simp add: group_was_full_iff bit_all_ones)
  have was: "group_was_full g \<longrightarrow> group_was_full ?g'"
    by (auto simp add: group_was_full_iff bit_all_ones bit_set_slot)
  have ent: "entries ?g' = (entries g)[idx := e]" and hin: "hints ?g' = (hints g)[idx := hash_hint (hash e)]"
    by simp_all
  have "group_wf hash ?g'"
    unfolding group_wf_def
  proof (intro conjI allI impI)
    show "length (hints ?g') = GROUP_ENTRIES" "length (entries ?g') = GROUP_ENTRIES"
      using wf by (simp_all add: group_wf_def)
    show "group_was_full ?g'" if "group_is_full ?g'"
      using that full by simp
  next
    fix i
    assume i: "i < GROUP_ENTRIES"
    show "bit (status ?g') i \<longleftrightarrow> entries ?g' ! i \<noteq> NULL"
      using wf i e unfolding bits [OF i] ent
      by (cases "i = idx") (auto simp add: group_wf_def)
    show "hints ?g' ! i = hash_hint (hash (entries ?g' ! i))" if "bit (status ?g') i"
      using wf i that unfolding bits [OF i] ent hin
      by (cases "i = idx") (auto simp add: group_wf_def)
  qed
  moreover have "group_contents ?g' = add_mset e (group_contents g)"
    using wf idx e null unfolding group_contents_def ent
    by (simp add: mset_filter_update group_wf_def)
  ultimately show ?thesis
    using ins was bits ent by (intro exI [of _ ?g']) blast
qed

lemma group_update_wf:
  assumes wf: "group_wf hash g" and idx: "idx < GROUP_ENTRIES" "bit (status g) idx"
    and hint: "hints g ! idx = hash_hint (hash e)" and e: "e \<noteq> NULL"
  defines "g' \<equiv> g\<lparr>entries := (entries g)[idx := e]\<rparr>"
  shows "group_update g e idx = Inr g' \<and> group_wf hash g' \<and>
    group_contents g' = add_mset e (group_contents g - {#entries g ! idx#}) \<and>
    entries g ! idx \<in># group_contents g"
proof -
  have upd: "group_update g e idx = Inr g'"
    using idx by (simp add: group_update_def slot_test_one_iff g'_def)
  have old: "entries g ! idx \<noteq> NULL"
    using wf idx by (auto simp add: group_wf_def)
  have "group_wf hash g'"
    unfolding group_wf_def
  proof (intro conjI allI impI)
    show "length (hints g') = GROUP_ENTRIES" "length (entries g') = GROUP_ENTRIES"
      using wf by (simp_all add: group_wf_def g'_def)
    show "group_was_full g'" if "group_is_full g'"
      using that wf by (simp add: group_wf_def g'_def group_is_full_def group_was_full_def)
  next
    fix i
    assume i: "i < GROUP_ENTRIES"
    show "bit (status g') i \<longleftrightarrow> entries g' ! i \<noteq> NULL"
      using wf i e idx by (cases "i = idx") (auto simp add: group_wf_def g'_def)
    show "hints g' ! i = hash_hint (hash (entries g' ! i))" if "bit (status g') i"
      using wf i that hint by (cases "i = idx") (auto simp add: group_wf_def g'_def)
  qed
  moreover have "group_contents g' = add_mset e (group_contents g - {#entries g ! idx#})"
    using wf idx e old unfolding group_contents_def g'_def
    by (simp add: mset_filter_update group_wf_def)
  moreover have "entries g ! idx \<in># group_contents g"
    using wf idx old by (auto simp add: group_contents_def group_wf_def)
  ultimately show ?thesis
    using upd by blast
qed

lemma group_erase_wf:
  assumes wf: "group_wf hash g" and idx: "idx < GROUP_ENTRIES" "bit (status g) idx"
  defines "g' \<equiv> g\<lparr>entries := (entries g)[idx := NULL], hints := (hints g)[idx := 0],
                   status := status g AND NOT (2 ^ idx)\<rparr>"
  shows "group_erase_entry g idx = Inr (entries g ! idx, g') \<and> group_wf hash g' \<and>
    group_contents g' = group_contents g - {#entries g ! idx#} \<and>
    entries g ! idx \<in># group_contents g \<and> entries g ! idx \<noteq> NULL"
proof -
  have er: "group_erase_entry g idx = Inr (entries g ! idx, g')"
    using idx by (simp add: group_erase_entry_def g'_def)
  have old: "entries g ! idx \<noteq> NULL"
    using wf idx by (auto simp add: group_wf_def)
  have "group_wf hash g'"
    unfolding group_wf_def
  proof (intro conjI allI impI)
    show "length (hints g') = GROUP_ENTRIES" "length (entries g') = GROUP_ENTRIES"
      using wf by (simp_all add: group_wf_def g'_def)
    show "group_was_full g'" if "group_is_full g'"
      using that idx by (auto simp add: g'_def group_is_full_iff bit_clear_slot GROUP_ENTRIES_def)
  next
    fix i
    assume i: "i < GROUP_ENTRIES"
    show "bit (status g') i \<longleftrightarrow> entries g' ! i \<noteq> NULL"
      using wf i idx by (cases "i = idx") (auto simp add: group_wf_def g'_def bit_clear_slot)
    show "hints g' ! i = hash_hint (hash (entries g' ! i))" if "bit (status g') i"
      using wf i that by (cases "i = idx") (auto simp add: group_wf_def g'_def bit_clear_slot)
  qed
  moreover have "group_contents g' = group_contents g - {#entries g ! idx#}"
    using wf idx old unfolding group_contents_def g'_def
    by (simp add: mset_filter_update group_wf_def NULL_def)
  moreover have "entries g ! idx \<in># group_contents g"
    using wf idx old by (auto simp add: group_contents_def group_wf_def)
  ultimately show ?thesis
    using er old by blast
qed

lemma power_of_2_nat:
  fixes n :: nat
  assumes "n AND (n - 1) = 0" and "0 < n"
  shows "\<exists>k. n = 2 ^ k"
  using assms
proof (induction n rule: less_induct)
  case (less n)
  show ?case
  proof (cases "even n")
    case True
    then obtain q where n: "n = 2 * q"
      by (auto elim: evenE)
    with less.prems have q: "0 < q"
      by simp
    then have "n - 1 = 2 * (q - 1) + 1"
      using n by simp
    then have "n AND (n - 1) = 2 * (q AND (q - 1))"
      using n and_rec [of "2 * q" "2 * (q - 1) + 1"] by simp
    with less.prems have "q AND (q - 1) = 0"
      by simp
    moreover have "q < n"
      using n q by simp
    ultimately obtain k where "q = 2 ^ k"
      using less.IH q by blast
    with n have "n = 2 ^ Suc k"
      by simp
    then show ?thesis ..
  next
    case False
    then obtain q where n: "n = 2 * q + 1"
      by (auto elim: oddE)
    then have "n AND (n - 1) = 2 * q"
      using and_rec [of "2 * q + 1" "2 * q"] by simp
    with less.prems have "q = 0"
      by simp
    with n have "n = 2 ^ 0"
      by simp
    then show ?thesis ..
  qed
qed

lemma is_power_of_2_cases: "is_power_of_2 n \<Longrightarrow> n = 0 \<or> (\<exists>k. n = 2 ^ k)"
  unfolding is_power_of_2_def using power_of_2_nat [of n] by auto

lemma is_power_of_2_power: "is_power_of_2 (2 ^ k)"
proof -
  have "(2::nat) ^ k AND mask k = 0"
    by (rule bit_eqI) (auto simp add: bit_simps)
  then show ?thesis
    by (simp add: is_power_of_2_def mask_eq_exp_minus_1)
qed

lemma sum_list_map_update:
  fixes f :: "'a \<Rightarrow> 'b::comm_monoid_add"
  assumes "p < length xs"
  shows "sum_list (map f (xs[p := y])) + f (xs ! p) = sum_list (map f xs) + f y"
  using assms
proof (induction xs arbitrary: p)
  case Nil
  then show ?case
    by simp
next
  case (Cons x xs)
  then show ?case
    by (cases p) (simp_all add: ac_simps)
qed

lemma h64_hash_update [simp]:
  "h64_hash (h\<lparr>groups := gs\<rparr>) = h64_hash h"
  "h64_hash (h\<lparr>count := c\<rparr>) = h64_hash h"
  by (simp_all add: h64_hash_def fun_eq_iff)

lemma h64_equals_update [simp]:
  "h64_equals (h\<lparr>groups := gs\<rparr>) = h64_equals h"
  "h64_equals (h\<lparr>count := c\<rparr>) = h64_equals h"
  by (simp_all add: h64_equals_def fun_eq_iff)

lemma contents_update:
  assumes "p < length (groups h)"
  shows "contents (h\<lparr>groups := (groups h)[p := g'], count := c'\<rparr>) + group_contents (groups h ! p) =
    contents h + group_contents g'"
  using sum_list_map_update [OF assms, where f = group_contents and y = g'] by (simp add: contents_def)

lemma h64_wf_update:
  assumes wf: "h64_wf h" and p: "p < size_in_groups h" and g': "group_wf (h64_hash h) g'"
    and c': "c' + size (group_contents (groups h ! p)) = count h + size (group_contents g')"
  shows "h64_wf (h\<lparr>groups := (groups h)[p := g'], count := c'\<rparr>)"
proof -
  let ?h' = "h\<lparr>groups := (groups h)[p := g'], count := c'\<rparr>"
  from wf p have len: "p < length (groups h)"
    by (simp add: h64_wf_def)
  have "size (contents ?h') + size (group_contents (groups h ! p)) =
      size (contents h) + size (group_contents g')"
    using contents_update [OF len, where g' = g' and c' = c'] by (metis size_union)
  with c' wf have "c' = size (contents ?h')"
    by (simp add: h64_wf_def)
  moreover have "\<forall>g\<in>set ((groups h)[p := g']). group_wf (h64_hash h) g"
    using wf g' by (auto simp add: h64_wf_def dest!: set_update_subset_insert [THEN subsetD])
  ultimately show ?thesis
    using wf by (simp add: h64_wf_def)
qed

lemma size_mask_ps_init: "size_mask (ps_init hash (2 ^ k)) = 2 ^ k - 1"
  by (simp add: ps_init_def Let_def)

lemma probe_at_in_table:
  assumes "h64_wf h"
  shows "probe_at (ps_init hash (size_in_groups h)) n < size_in_groups h"
proof -
  from assms obtain k where "size_in_groups h = 2 ^ k"
    by (auto simp add: h64_wf_def)
  then show ?thesis
    using probe_at_less [OF size_mask_ps_init, of hash k n] by simp
qed

text \<open>\<open>probe h hash n\<close>: the group the probe for \<open>hash\<close> visits in iteration \<open>n\<close>.\<close>

definition probe :: "h64 \<Rightarrow> 64 word \<Rightarrow> nat \<Rightarrow> nat" where
  "probe h hash n = probe_at (ps_init hash (size_in_groups h)) n"

lemma probe_less: "h64_wf h \<Longrightarrow> probe h hash n < size_in_groups h"
  unfolding probe_def by (rule probe_at_in_table)

lemma size_group_contents_le: "size (group_contents g) \<le> length (entries g)"
  unfolding group_contents_def by (simp del: mset_filter)

lemma size_sum_list_mset: "size (sum_list ms) = sum_list (map size ms)" for ms :: "'a multiset list"
  by (induction ms) simp_all

lemma count_le_capacity:
  assumes "h64_wf h"
  shows "count h \<le> GROUP_ENTRIES * size_in_groups h"
proof -
  have "sum_list (map (size \<circ> group_contents) (groups h)) \<le> sum_list (map (\<lambda>g. GROUP_ENTRIES) (groups h))"
  proof (rule sum_list_mono)
    fix g
    assume "g \<in> set (groups h)"
    with assms have "length (entries g) = GROUP_ENTRIES"
      by (simp add: h64_wf_def group_wf_def)
    with size_group_contents_le [of g] show "(size \<circ> group_contents) g \<le> GROUP_ENTRIES"
      by simp
  qed
  with assms show ?thesis
    by (simp add: h64_wf_def contents_def size_sum_list_mset sum_list_triv mult.commute)
qed

lemma size_in_groups_bound:
  assumes "h64_wf h"
  shows "4 \<le> size_in_groups h" and "size_in_groups h < 2 ^ 58"
proof -
  from assms obtain k where k: "2 \<le> k" "k < 58" "size_in_groups h = 2 ^ k"
    by (auto simp add: h64_wf_def)
  have "(2::nat) ^ 2 \<le> 2 ^ k"
    using k(1) by (intro power_increasing) simp_all
  with k(3) show "4 \<le> size_in_groups h"
    by simp
  have "(2::nat) ^ k < 2 ^ 58"
    using k(2) by (intro power_strict_increasing) simp_all
  with k(3) show "size_in_groups h < 2 ^ 58"
    by simp
qed

lemma count_decrement:
  assumes "h64_wf h" and "0 < count h"
  shows "(count h + 2 ^ 64 - 1) mod 2 ^ 64 = count h - 1"
proof -
  have "count h < 2 ^ 64"
    using count_le_capacity [OF assms(1)] size_in_groups_bound(2) [OF assms(1)]
    by (simp add: GROUP_ENTRIES_def)
  moreover have "count h + 2 ^ 64 - 1 = (count h - 1) + 1 * 2 ^ 64"
    using assms(2) by simp
  ultimately show ?thesis
    by (simp only: mod_mult_self1) simp
qed

lemma count_increment:
  assumes "h64_wf h"
  shows "(count h + 1) mod 2 ^ 64 = count h + 1"
proof -
  have "count h + 1 < 2 ^ 64"
    using count_le_capacity [OF assms] size_in_groups_bound(2) [OF assms]
    by (simp add: GROUP_ENTRIES_def)
  then show ?thesis
    by simp
qed

lemma double_size_no_wrap:
  assumes "h64_wf h"
  shows "(size_in_groups h * 2) mod 2 ^ 64 = size_in_groups h * 2"
  using size_in_groups_bound(2) [OF assms] by simp

lemma find_empty_entry_slot:
  assumes wf: "h64_wf h" and r: "h64_find_empty_entry h hash = Some (Inr r)"
  shows "\<exists>n idx. r = find_result_init (Some (probe h hash n)) idx True \<and>
    idx < GROUP_ENTRIES \<and> \<not> bit (status (groups h ! probe h hash n)) idx \<and>
    (\<forall>m<n. group_is_full (groups h ! probe h hash m))"
proof -
  from find_empty_entry_loop_Some [OF r [unfolded h64_find_empty_entry_def] refl] obtain n where n:
    "r = find_result_init (Some (probe h hash n))
           (ctz (NOT (ucast (status (groups h ! probe h hash n)) :: 32 word))) True"
    "\<not> group_is_full (groups h ! probe h hash n)"
    "\<forall>m<n. group_is_full (groups h ! probe h hash m)"
    unfolding probe_def by blast
  from free_slot [OF n(2)] n(1,3) show ?thesis
    by blast
qed

lemma in_groups_wf:
  "h64_wf h \<Longrightarrow> p < size_in_groups h \<Longrightarrow> group_wf (h64_hash h) (groups h ! p)"
  by (simp add: h64_wf_def)

definition same_table :: "h64 \<Rightarrow> h64 \<Rightarrow> bool" where
  "same_table h h' \<longleftrightarrow>
     hasher h' = hasher h \<and> equals h' = equals h \<and> seed h' = seed h \<and>
     size_in_groups h' = size_in_groups h"

lemma install_entry_wf:
  assumes wf: "h64_wf h" and e: "e \<noteq> NULL"
    and r: "h64_find_empty_entry h (h64_hash h e) = Some (Inr r)"
  shows "\<exists>h'. install_entry h r e (hash_hint (h64_hash h e)) = Inr h' \<and> h64_wf h' \<and>
    contents h' = add_mset e (contents h) \<and> same_table h h' \<and> count h' = count h + 1"
proof -
  from find_empty_entry_slot [OF wf r] obtain n idx where
    r': "r = find_result_init (Some (probe h (h64_hash h e) n)) idx True"
    and idx: "idx < GROUP_ENTRIES" "\<not> bit (status (groups h ! probe h (h64_hash h e) n)) idx"
    by blast
  let ?p = "probe h (h64_hash h e) n"
  have p: "?p < size_in_groups h"
    using wf by (rule probe_less)
  then have len: "?p < length (groups h)"
    using wf by (simp add: h64_wf_def)
  from group_insert_wf [OF in_groups_wf [OF wf p] idx e] obtain g' where g':
    "group_insert (groups h ! ?p) e (hash_hint (h64_hash h e)) idx = Inr g'"
    "group_wf (h64_hash h) g'"
    "group_contents g' = add_mset e (group_contents (groups h ! ?p))"
    by blast
  let ?h' = "h\<lparr>groups := (groups h)[?p := g'], count := count h + 1\<rparr>"
  have ins: "install_entry h r e (hash_hint (h64_hash h e)) = Inr ?h'"
    using g'(1) count_increment [OF wf]
    by (simp add: install_entry_def r' find_result_init_def del: One_nat_def)
  have "h64_wf ?h'"
    using wf p g'(2) by (rule h64_wf_update) (simp add: g'(3))
  moreover have "contents ?h' = add_mset e (contents h)"
    using contents_update [OF len, where g' = g' and c' = "count h + 1"] by (simp add: g'(3))
  ultimately show ?thesis
    using ins by (intro exI [of _ ?h']) (simp add: same_table_def)
qed

lemma group_candidate_Some:
  assumes "group_candidate h e hint g = Some idx" and "length (hints g) = GROUP_ENTRIES"
  shows "idx < GROUP_ENTRIES \<and> bit (status g) idx \<and> hints g ! idx = hint \<and>
    h64_equals h e (entries g ! idx)"
  using match_loop_Some [OF assms(1) [unfolded group_candidate_def]]
  by (simp add: bit_group_match_inserted [OF assms(2)])


lemma find_entry_cases:
  assumes wf: "h64_wf h" and r: "h64_find_entry h e hash = Some (Inr r)"
  shows "(\<exists>n idx. r = find_result_init (Some (probe h hash n)) idx True \<and>
            idx < GROUP_ENTRIES \<and> bit (status (groups h ! probe h hash n)) idx \<and>
            hints (groups h ! probe h hash n) ! idx = hash_hint hash \<and>
            h64_equals h e (entries (groups h ! probe h hash n) ! idx) \<and>
            group_candidate h e (hash_hint hash) (groups h ! probe h hash n) = Some idx \<and>
            (\<forall>m<n. group_was_full (groups h ! probe h hash m) \<and>
               group_candidate h e (hash_hint hash) (groups h ! probe h hash m) = None)) \<or>
         (r = find_result_init None (2 ^ 64 - 1) False \<and>
          (\<exists>n. \<not> group_was_full (groups h ! probe h hash n) \<and>
             (\<forall>m\<le>n. group_candidate h e (hash_hint hash) (groups h ! probe h hash m) = None) \<and>
             (\<forall>m<n. group_was_full (groups h ! probe h hash m))))"
proof -
  let ?G = "\<lambda>m. groups h ! probe h hash m"
  let ?c = "group_candidate h e (hash_hint hash)"
  from find_entry_loop_Some [OF r [unfolded h64_find_entry_def] refl]
  obtain n where n: "\<forall>m<n. group_was_full (?G m) \<and> ?c (?G m) = None"
    and res: "case ?c (?G n) of
        Some idx \<Rightarrow> r = find_result_init (Some (probe h hash n)) idx True
      | None \<Rightarrow> \<not> group_was_full (?G n) \<and> r = find_result_init None (2 ^ 64 - 1) False"
    unfolding probe_def by blast
  show ?thesis
  proof (cases "?c (?G n)")
    case None
    with res n have "\<forall>m\<le>n. ?c (?G m) = None"
      by (auto simp add: le_less)
    with None res n show ?thesis
      by auto
  next
    case (Some idx)
    have "length (hints (?G n)) = GROUP_ENTRIES"
      using in_groups_wf [OF wf probe_less [OF wf]] by (simp add: group_wf_def)
    from group_candidate_Some [OF Some this] Some res n show ?thesis
      by auto
  qed
qed


lemma group_wf_zero: "group_wf hash zero_group"
  by (simp add: group_wf_def zero_group_def group_is_full_def ENTRIES_MASK_def)

lemma group_contents_zero: "group_contents zero_group = {#}"
  by (simp add: group_contents_def zero_group_def)

lemma contents_replicate_zero:
  "contents (h\<lparr>groups := replicate n zero_group\<rparr>) = {#}"
  by (induction n) (simp_all add: contents_def group_contents_zero)

lemma h64_init_cases:
  assumes "h64_init w sz hf ef = Inr (w', t)"
  defines "sz1 \<equiv> (if sz < MIN_SIZE then MIN_SIZE else sz)"
  shows "hasher t = hf \<and> equals t = ef \<and> count t = 0 \<and> size_in_groups t = sz1 \<and>
    ((\<exists>k. 2 \<le> k \<and> k < 58 \<and> sz1 = 2 ^ k) \<and> groups t = replicate sz1 zero_group \<or>
     2 ^ 58 \<le> sz1 \<and> groups t = [])"
proof -
  from assms(1) have pow: "is_power_of_2 sz"
    by (auto simp add: h64_init_def split: if_splits)
  from assms(1) obtain a where t: "t = \<lparr>hasher = hf, equals = ef, seed = mixer64 a,
      groups = replicate ((sz1 * 64) mod 2 ^ 64 div 64) zero_group, size_in_groups = sz1, count = 0\<rparr>"
    by (auto simp add: h64_init_def sz1_def Let_def sizeof_h64_group_def split: if_splits sum.splits)
  obtain k where k: "2 \<le> k" "sz1 = 2 ^ k"
  proof (cases "sz < MIN_SIZE")
    case True
    then have "sz1 = 2 ^ 2"
      by (simp add: sz1_def MIN_SIZE_def DEFAULT_SIZE_def)
    then show ?thesis
      by (intro that [of 2]) simp_all
  next
    case False
    with is_power_of_2_cases [OF pow] obtain k where k: "sz = 2 ^ k"
      by (auto simp add: MIN_SIZE_def DEFAULT_SIZE_def)
    with False have "(2::nat) ^ 2 \<le> 2 ^ k"
      by (simp add: MIN_SIZE_def DEFAULT_SIZE_def)
    then have "2 \<le> k"
      by (simp only: power_increasing_iff [of 2] one_less_numeral_iff semiring_norm)
    with False k show ?thesis
      by (intro that [of k]) (simp_all add: sz1_def)
  qed
  show ?thesis
  proof (cases "k < 58")
    case True
    then have "(2::nat) ^ k \<le> 2 ^ 57"
      by (intro power_increasing) simp_all
    then have "sz1 * 64 < 2 ^ 64"
      by (simp add: k(2))
    then have "(sz1 * 64) mod 2 ^ 64 div 64 = sz1"
      by simp
    with True k show ?thesis
      by (auto simp add: t)
  next
    case False
    then obtain d where d: "k = 58 + d"
      by (auto simp add: not_less le_iff_add)
    have "sz1 * 64 = 2 ^ d * 2 ^ 64"
      by (simp add: k(2) d power_add)
    then have "(sz1 * 64) mod 2 ^ 64 = 0"
      by (simp only: mod_mult_self2_is_0)
    moreover have "(2::nat) ^ 58 \<le> 2 ^ k"
      using False by (intro power_increasing) simp_all
    ultimately show ?thesis
      by (simp add: t k(2))
  qed
qed

lemma h64_init_wf:
  assumes "h64_init w sz hf ef = Inr (w', t)" and "sz < 2 ^ 58"
  shows "h64_wf t \<and> contents t = {#} \<and> hasher t = hf \<and> equals t = ef \<and> count t = 0 \<and>
    size_in_groups t = (if sz < MIN_SIZE then MIN_SIZE else sz) \<and>
    groups t = replicate (size_in_groups t) zero_group"
proof -
  define sz1 where "sz1 = (if sz < MIN_SIZE then MIN_SIZE else sz)"
  have "sz1 < 2 ^ 58"
    using assms(2) by (simp add: sz1_def MIN_SIZE_def DEFAULT_SIZE_def)
  with h64_init_cases [OF assms(1)] have t: "hasher t = hf" "equals t = ef" "count t = 0"
    "size_in_groups t = sz1" "\<exists>k. 2 \<le> k \<and> k < 58 \<and> sz1 = 2 ^ k" "groups t = replicate sz1 zero_group"
    by (auto simp add: sz1_def)
  have "contents t = {#}"
    using contents_replicate_zero [where n = sz1 and h = t] by (simp add: t contents_def)
  with t show ?thesis
    by (auto simp add: h64_wf_def sz1_def group_wf_zero)
qed

lemma h64_init_ok:
  assumes "h64_init w sz hf ef = Inr (w', t)"
  shows "h64_ok t \<and> contents t = {#} \<and> hasher t = hf \<and> equals t = ef \<and> count t = 0 \<and>
    size_in_groups t = (if sz < MIN_SIZE then MIN_SIZE else sz) \<and>
    (\<forall>g\<in>set (groups t). g = zero_group)"
proof (cases "sz < 2 ^ 58")
  case True
  from h64_init_wf [OF assms True] show ?thesis
    by (auto simp add: h64_ok_def)
next
  case False
  then have sz1: "(if sz < MIN_SIZE then MIN_SIZE else sz) = sz"
    by (simp add: MIN_SIZE_def DEFAULT_SIZE_def)
  note c = h64_init_cases [OF assms, unfolded sz1]
  have "groups t = []"
  proof (rule ccontr)
    assume "groups t \<noteq> []"
    with c obtain k where "k < 58" "sz = 2 ^ k"
      by auto
    then have "sz < 2 ^ 58"
      by (simp only: power_strict_increasing_iff [of 2] one_less_numeral_iff semiring_norm)
    with False show False ..
  qed
  with c False show ?thesis
    by (auto simp add: h64_ok_def h64_wrapped_def contents_def sz1)
qed


lemma not_wf_wrapped: "h64_wrapped h \<Longrightarrow> \<not> h64_wf h"
  by (auto simp add: h64_wrapped_def h64_wf_def)

lemma h64_for_each_wrapped: "h64_wrapped h \<Longrightarrow> h64_for_each h = []"
  by (simp add: h64_wrapped_def h64_for_each_def)

lemma no_growth_wrapped: "h64_wrapped h \<Longrightarrow> \<not> h64_should_grow_up h"
  by (simp add: h64_wrapped_def h64_should_grow_up_def)

lemma h64_find_entry_wrapped:
  "h64_wrapped h \<Longrightarrow> h64_find_entry h e hash = Some (Inl Out_of_bounds)"
  by (simp add: h64_wrapped_def h64_find_entry_def find_entry_loop_empty)

lemma h64_find_empty_entry_wrapped:
  "h64_wrapped h \<Longrightarrow> h64_find_empty_entry h hash = Some (Inl Out_of_bounds)"
  by (simp add: h64_wrapped_def h64_find_empty_entry_def find_empty_entry_loop_empty)

lemma h64_insert_new_wrapped:
  "h64_wrapped h \<Longrightarrow> h64_insert_new w h e = Some (Inl Out_of_bounds)"
  by (simp add: h64_insert_new_eq no_growth_wrapped bind_outcome_def Let_def
      h64_find_empty_entry_wrapped)

lemma h64_insert_wrapped:
  "h64_wrapped h \<Longrightarrow> h64_insert w h e = Some (Inl Out_of_bounds)"
  by (simp add: h64_insert_def no_growth_wrapped bind_outcome_def Let_def h64_find_entry_wrapped)

lemma h64_erase_wrapped:
  "h64_wrapped h \<Longrightarrow> h64_erase w h e = Some (Inl Out_of_bounds)"
  by (simp add: h64_erase_def h64_find_entry_wrapped)

lemma h64_find_wrapped:
  "h64_wrapped h \<Longrightarrow> h64_find h e = Some (Inl Out_of_bounds)"
  by (simp add: h64_find_def bind_outcome_def h64_find_entry_wrapped)

lemma h64_resize_wrapped:
  assumes "h64_wrapped h"
  shows "h64_resize w h sz \<noteq> Some (Inr x)"
  using assms
  by (auto simp add: h64_resize_eq h64_for_each_wrapped h64_resize_loop_Nil bind_outcome_def
      h64_wrapped_def split: sum.splits)

lemma h64_for_each_not_null: "NULL \<notin> set (h64_for_each h)"
  by (auto simp add: h64_for_each_def)

lemma h64_for_each_contents:
  assumes "h64_wf h"
  shows "mset (h64_for_each h) = contents h"
proof -
  have "take GROUP_ENTRIES (entries g) = entries g" if "g \<in> set (groups h)" for g
    using assms that by (simp add: h64_wf_def group_wf_def)
  then have "map (\<lambda>g. mset (filter (\<lambda>e. e \<noteq> NULL) (take GROUP_ENTRIES (entries g)))) (groups h) =
      map group_contents (groups h)"
    unfolding group_contents_def by (intro map_cong) simp_all
  moreover have "take (size_in_groups h) (groups h) = groups h"
    using assms by (simp add: h64_wf_def)
  ultimately show ?thesis
    by (simp add: h64_for_each_def mset_concat contents_def comp_def del: mset_filter cong: map_cong)
qed

definition rehash_post :: "heap \<Rightarrow> rehash_call \<Rightarrow> heap \<Rightarrow> h64 \<Rightarrow> bool" where
  "rehash_post w c w' h' =
     (case c of
        Insert_new h e \<Rightarrow>
          h64_wf h \<and> e \<noteq> NULL \<longrightarrow>
            h64_wf h' \<and> contents h' = add_mset e (contents h) \<and>
            hasher h' = hasher h \<and> equals h' = equals h
      | Resize h sz \<Rightarrow>
          h64_wf h \<longrightarrow>
            h64_ok h' \<and> (contents h \<noteq> {#} \<or> sz < 2 ^ 58 \<longrightarrow> h64_wf h') \<and>
            contents h' = contents h \<and> hasher h' = hasher h \<and> equals h' = equals h
      | For_each tmp es \<Rightarrow>
          h64_ok tmp \<and> NULL \<notin> set es \<longrightarrow>
            h64_ok h' \<and> (h64_wf tmp \<or> es \<noteq> [] \<longrightarrow> h64_wf h') \<and>
            contents h' = contents tmp + mset es \<and>
            hasher h' = hasher tmp \<and> equals h' = equals tmp)"

lemma rehash_wf:
  assumes "h64_rehash (w, c) = Some (Inr (w', h'))"
  shows "rehash_post w c w' h'"
  using assms
proof (induct rule: h64_rehash_induct)
  case (Insert_new w h e w1 h1 result h2)
  show ?case
    unfolding rehash_post_def rehash_call.case
  proof (intro impI, elim conjE)
    assume wf: "h64_wf h" and e: "e \<noteq> NULL"
    have "\<not> h64_wrapped h1"
      using Insert_new(3) by (auto simp add: h64_find_empty_entry_wrapped)
    have h1: "h64_wf h1 \<and> contents h1 = contents h \<and> hasher h1 = hasher h \<and> equals h1 = equals h"
    proof (cases "h64_should_grow_up h")
      case True
      from Insert_new(2) [OF True] wf \<open>\<not> h64_wrapped h1\<close> show ?thesis
        by (simp add: rehash_post_def h64_ok_def)
    next
      case False
      with Insert_new(1) wf show ?thesis
        by simp
    qed
    from install_entry_wf [OF _ e Insert_new(3)] h1 Insert_new(4)
    show "h64_wf h2 \<and> contents h2 = add_mset e (contents h) \<and>
        hasher h2 = hasher h \<and> equals h2 = equals h"
      by (auto simp add: same_table_def)
  qed
next
  case (Resize w h sz w1 tmp w2 h2)
  show ?case
    unfolding rehash_post_def rehash_call.case
  proof (intro impI)
    assume wf: "h64_wf h"
    note tmp = h64_init_ok [OF Resize(2)]
    from Resize(5) tmp h64_for_each_not_null [of h]
    have r: "h64_ok h2" "h64_wf tmp \<or> h64_for_each h \<noteq> [] \<longrightarrow> h64_wf h2"
      "contents h2 = mset (h64_for_each h)" "hasher h2 = hasher h" "equals h2 = equals h"
      by (simp_all add: rehash_post_def)
    have "h64_wf h2" if "contents h \<noteq> {#} \<or> sz < 2 ^ 58"
      using that
    proof
      assume "contents h \<noteq> {#}"
      then have "h64_for_each h \<noteq> []"
        using h64_for_each_contents [OF wf] by auto
      with r(2) show ?thesis
        by simp
    next
      assume "sz < 2 ^ 58"
      from h64_init_wf [OF Resize(2) this] r(2) show ?thesis
        by simp
    qed
    with r show "h64_ok h2 \<and> (contents h \<noteq> {#} \<or> sz < 2 ^ 58 \<longrightarrow> h64_wf h2) \<and>
      contents h2 = contents h \<and> hasher h2 = hasher h \<and> equals h2 = equals h"
      by (simp add: h64_for_each_contents [OF wf])
  qed
next
  case (Nil w tmp)
  show ?case
    by (simp add: rehash_post_def)
next
  case (Cons w tmp e es w1 tmp1 w2 tmp2)
  show ?case
    unfolding rehash_post_def rehash_call.case
  proof (intro impI, elim conjE)
    assume ok: "h64_ok tmp" and es: "NULL \<notin> set (e # es)"
    from es have e: "e \<noteq> NULL" and es1: "NULL \<notin> set es"
      by auto
    have "\<not> h64_wrapped tmp"
      using Cons(1) by (auto simp add: h64_insert_new_wrapped)
    with ok have wf: "h64_wf tmp"
      by (simp add: h64_ok_def)
    from Cons(2) wf e have r1: "h64_wf tmp1" "contents tmp1 = add_mset e (contents tmp)"
      "hasher tmp1 = hasher tmp" "equals tmp1 = equals tmp"
      by (simp_all add: rehash_post_def)
    from Cons(4) r1(1) es1 have r2: "h64_wf tmp2" "contents tmp2 = contents tmp1 + mset es"
      "hasher tmp2 = hasher tmp1" "equals tmp2 = equals tmp1"
      by (simp_all add: rehash_post_def h64_ok_def)
    with r1 show "h64_ok tmp2 \<and> (h64_wf tmp \<or> e # es \<noteq> [] \<longrightarrow> h64_wf tmp2) \<and>
      contents tmp2 = contents tmp + mset (e # es) \<and>
      hasher tmp2 = hasher tmp \<and> equals tmp2 = equals tmp"
      by (simp add: h64_ok_def)
  qed
qed

lemma h64_insert_new_wf:
  assumes "h64_wf h" and "e \<noteq> NULL" and "h64_insert_new w h e = Some (Inr (w', h'))"
  shows "h64_wf h' \<and> contents h' = add_mset e (contents h) \<and>
    hasher h' = hasher h \<and> equals h' = equals h"
  using rehash_wf [OF assms(3) [unfolded h64_insert_new_def]] assms(1,2)
  by (simp add: rehash_post_def)

lemma h64_resize_wf:
  assumes "h64_wf h" and "h64_resize w h sz = Some (Inr (w', h'))"
  shows "h64_ok h' \<and> (contents h \<noteq> {#} \<or> sz < 2 ^ 58 \<longrightarrow> h64_wf h') \<and>
    contents h' = contents h \<and> hasher h' = hasher h \<and> equals h' = equals h"
  using rehash_wf [OF assms(2) [unfolded h64_resize_def]] assms(1)
  by (simp add: rehash_post_def)

lemma h64_reserve_wf:
  assumes "h64_wf h" and "h64_reserve w h n = Some (Inr (w', h'))"
  shows "h64_ok h' \<and> contents h' = contents h \<and> hasher h' = hasher h \<and> equals h' = equals h"
proof -
  from assms(2) obtain sz where "h64_resize w h sz = Some (Inr (w', h'))"
    by (rule h64_reserve_resize)
  from h64_resize_wf [OF assms(1) this] show ?thesis
    by simp
qed

lemma h64_create_wf:
  assumes "h64_create w hf ef = Inr (w', h')"
  shows "h64_wf h' \<and> contents h' = {#} \<and> hasher h' = hf \<and> equals h' = ef \<and>
    count h' = 0 \<and> size_in_groups h' = DEFAULT_SIZE"
proof -
  from assms obtain w1 where "h64_init w1 DEFAULT_SIZE hf ef = Inr (w', h')"
    by (auto simp add: h64_create_def split: sum.splits)
  from h64_init_wf [OF this] show ?thesis
    by (simp add: MIN_SIZE_def DEFAULT_SIZE_def)
qed

lemma h64_grow_wf:
  assumes wf: "h64_wf h"
    and grown: "(if h64_should_grow_up h then h64_grow_up w h else Some (Inr (w, h))) = Some (Inr (w1, h1))"
  shows "h64_wf h1 \<and> contents h1 = contents h \<and> hasher h1 = hasher h \<and> equals h1 = equals h"
proof (cases "h64_should_grow_up h")
  case True
  with grown have "h64_resize w h ((size_in_groups h * 2) mod 2 ^ 64) = Some (Inr (w1, h1))"
    by (simp add: h64_grow_up_def)
  note r = h64_resize_wf [OF wf this]
  from True have "0 < count h"
    by (simp add: h64_should_grow_up_def Let_def)
  with wf have "contents h \<noteq> {#}"
    by (auto simp add: h64_wf_def)
  with r show ?thesis
    by simp
next
  case False
  with grown wf show ?thesis
    by simp
qed

lemma h64_update_count_same: "h\<lparr>groups := gs, count := count h\<rparr> = h\<lparr>groups := gs\<rparr>"
  by (cases h) simp

lemma h64_insert_wf:
  assumes wf: "h64_wf h" and e: "e \<noteq> NULL" and ins: "h64_insert w h e = Some (Inr (w', h'))"
  shows "h64_wf h' \<and> hasher h' = hasher h \<and> equals h' = equals h \<and>
    (contents h' = add_mset e (contents h) \<and> count h' = count h + 1 \<or>
     (\<exists>x. x \<in># contents h \<and> equals h e x \<noteq> 0 \<and>
          contents h' = add_mset e (contents h - {#x#}) \<and> count h' = count h))"
proof -
  from ins obtain w1 h1 where
    grown: "(if h64_should_grow_up h then h64_grow_up w h else Some (Inr (w, h))) = Some (Inr (w1, h1))"
    by (auto simp add: h64_insert_def bind_outcome_def split: option.splits sum.splits)
  note h1 = h64_grow_wf [OF wf grown]
  then have wf1: "h64_wf h1"
    by simp
  have cnt: "count h1 = count h"
    using h1 wf by (simp add: h64_wf_def)
  from ins grown obtain result where
    result: "h64_find_entry h1 e (h64_hash h1 e) = Some (Inr result)"
    by (auto simp add: h64_insert_def bind_outcome_def Let_def split: option.splits sum.splits)
  show ?thesis
  proof (cases "result_found result")
    case True
    with find_entry_cases [OF wf1 result] obtain n idx where
      r: "result = find_result_init (Some (probe h1 (h64_hash h1 e) n)) idx True"
      and idx: "idx < GROUP_ENTRIES" "bit (status (groups h1 ! probe h1 (h64_hash h1 e) n)) idx"
      and hint: "hints (groups h1 ! probe h1 (h64_hash h1 e) n) ! idx = hash_hint (h64_hash h1 e)"
      and eq: "h64_equals h1 e (entries (groups h1 ! probe h1 (h64_hash h1 e) n) ! idx)"
      by (auto simp add: find_result_init_def)
    let ?p = "probe h1 (h64_hash h1 e) n"
    let ?g = "groups h1 ! ?p"
    let ?g' = "?g\<lparr>entries := (entries ?g)[idx := e]\<rparr>"
    have p: "?p < size_in_groups h1"
      using wf1 by (rule probe_less)
    then have len: "?p < length (groups h1)"
      using wf1 by (simp add: h64_wf_def)
    note g' = group_update_wf [OF in_groups_wf [OF wf1 p] idx hint e]
    have "h' = h1\<lparr>groups := (groups h1)[?p := ?g']\<rparr>" and w': "w' = w1"
      using ins grown result True g' r
      by (simp_all add: h64_insert_def bind_outcome_def Let_def find_result_init_def)
    then have h': "h' = h1\<lparr>groups := (groups h1)[?p := ?g'], count := count h1\<rparr>"
      by (simp only: h64_update_count_same)
    have "h64_wf h'"
      unfolding h' using wf1 p
    proof (rule h64_wf_update)
      show "group_wf (h64_hash h1) ?g'"
        using g' by simp
      show "count h1 + size (group_contents ?g) = count h1 + size (group_contents ?g')"
        using g' by (simp add: size_Suc_Diff1)
    qed
    moreover have x1: "entries ?g ! idx \<in># contents h1"
      using g' len by (auto simp add: contents_def intro!: bexI [of _ ?g])
    moreover have "contents h' = add_mset e (contents h1 - {#entries ?g ! idx#})"
    proof -
      from x1 obtain A where A: "contents h1 = add_mset (entries ?g ! idx) A"
        by (blast dest: multi_member_split)
      from g' obtain G where G: "group_contents ?g = add_mset (entries ?g ! idx) G"
        by (blast dest: multi_member_split)
      have "contents h' + group_contents ?g = contents h1 + group_contents ?g'"
        unfolding h' by (rule contents_update [OF len])
      also have "\<dots> = add_mset e (contents h1 - {#entries ?g ! idx#}) + group_contents ?g"
        using g' by (simp add: A G)
      finally show ?thesis
        by simp
    qed
    ultimately show ?thesis
      using h1 eq cnt by (auto simp add: h' h64_equals_def)
  next
    case False
    with ins grown result obtain result1 where
      result1: "h64_find_empty_entry h1 (h64_hash h1 e) = Some (Inr result1)"
      and inst: "install_entry h1 result1 e (hash_hint (h64_hash h1 e)) = Inr h'"
      by (auto simp add: h64_insert_def bind_outcome_def Let_def split: option.splits sum.splits)
    from install_entry_wf [OF wf1 e result1] inst h1 cnt show ?thesis
      by (auto simp add: same_table_def)
  qed
qed


lemma h64_erase_wf:
  assumes wf: "h64_wf h" and er: "h64_erase w h e = Some (Inr (w', h', ret))"
  shows "h64_wf h' \<and> hasher h' = hasher h \<and> equals h' = equals h \<and>
    (ret = NULL \<and> h' = h \<and> w' = w \<or>
     ret \<noteq> NULL \<and> ret \<in># contents h \<and> equals h e ret \<noteq> 0 \<and>
       contents h' = contents h - {#ret#} \<and> count h' = count h - 1)"
proof -
  from er obtain result where result: "h64_find_entry h e (h64_hash h e) = Some (Inr result)"
    by (auto simp add: h64_erase_def split: option.splits sum.splits)
  show ?thesis
  proof (cases "result_found result")
    case False
    with er result wf show ?thesis
      by (simp add: h64_erase_def)
  next
    case True
    with find_entry_cases [OF wf result] obtain n idx where
      r: "result = find_result_init (Some (probe h (h64_hash h e) n)) idx True"
      and idx: "idx < GROUP_ENTRIES" "bit (status (groups h ! probe h (h64_hash h e) n)) idx"
      and eq: "h64_equals h e (entries (groups h ! probe h (h64_hash h e) n) ! idx)"
      by (auto simp add: find_result_init_def)
    let ?p = "probe h (h64_hash h e) n"
    let ?g = "groups h ! ?p"
    let ?x = "entries ?g ! idx"
    let ?g' = "?g\<lparr>entries := (entries ?g)[idx := NULL], hints := (hints ?g)[idx := 0],
                   status := status ?g AND NOT (2 ^ idx)\<rparr>"
    have p: "?p < size_in_groups h"
      using wf by (rule probe_less)
    then have len: "?p < length (groups h)"
      using wf by (simp add: h64_wf_def)
    note g' = group_erase_wf [OF in_groups_wf [OF wf p] idx]
    have x: "?x \<in># contents h"
      using g' len by (auto simp add: contents_def intro!: bexI [of _ ?g])
    then have "contents h \<noteq> {#}"
      by auto
    then have "0 < size (contents h)"
      by (simp add: nonempty_has_size)
    then have pos: "0 < count h"
      using wf by (simp add: h64_wf_def)
    define h1 where "h1 = h\<lparr>groups := (groups h)[?p := ?g'], count := count h - 1\<rparr>"
    have eq1: "h64_erase w h e =
      bind_outcome (if h64_should_grow_down h1 then h64_grow_down w h1 else Some (Inr (w, h1)))
        (\<lambda>(w2, h2). Some (Inr (w2, h2, ?x)))"
      using result True g' r count_decrement [OF wf pos] unfolding h1_def
      by (simp add: h64_erase_def Let_def find_result_init_def del: One_nat_def)
    have wf1: "h64_wf h1"
      unfolding h1_def using wf p
    proof (rule h64_wf_update)
      show "group_wf (h64_hash h) ?g'"
        using g' by simp
      have "group_contents ?g \<noteq> {#}"
        using g' by auto
      then have "0 < size (group_contents ?g)"
        by (simp add: nonempty_has_size)
      then show "count h - 1 + size (group_contents ?g) = count h + size (group_contents ?g')"
        using g' pos by (simp add: size_Diff_singleton)
    qed
    have c1: "contents h1 = contents h - {#?x#}"
    proof -
      from x obtain A where A: "contents h = add_mset ?x A"
        by (blast dest: multi_member_split)
      from g' obtain G where G: "group_contents ?g = add_mset ?x G"
        by (blast dest: multi_member_split)
      have "contents h1 + group_contents ?g = contents h + group_contents ?g'"
        unfolding h1_def by (rule contents_update [OF len])
      also have "\<dots> = (contents h - {#?x#}) + group_contents ?g"
        using g' by (simp add: A G)
      finally show ?thesis
        by simp
    qed
    have "ret = ?x \<and> h64_wf h' \<and> contents h' = contents h1 \<and>
      hasher h' = hasher h1 \<and> equals h' = equals h1 \<and> count h' = count h1"
    proof (cases "h64_should_grow_down h1")
      case True
      with er eq1 have "h64_resize w h1 (size_in_groups h1 div 2) = Some (Inr (w', h'))" and "ret = ?x"
        by (auto simp add: bind_outcome_def h64_grow_down_def split: option.splits sum.splits)
      moreover have "size_in_groups h1 div 2 < 2 ^ 58"
        using size_in_groups_bound(2) [OF wf1] by simp
      ultimately have r: "ret = ?x" "h64_wf h'" "contents h' = contents h1"
        "hasher h' = hasher h1" "equals h' = equals h1"
        using h64_resize_wf [OF wf1, of w "size_in_groups h1 div 2" w' h'] by simp_all
      from r(2,3) wf1 have "count h' = count h1"
        by (simp add: h64_wf_def)
      with r show ?thesis
        by simp
    next
      case False
      with er eq1 wf1 show ?thesis
        by (simp add: bind_outcome_def)
    qed
    with c1 g' x eq show ?thesis
      by (simp add: h1_def h64_equals_def)
  qed
qed

section \<open>C4: the operations keep the group invariant and the count\<close>

text \<open>
  \<open>popcount\<close> is the number of set bits. \<open>table_invariant\<close> is the invariant as claim C4
  words it. A table is \<open>reachable\<close> when it comes from \<^verbatim>\<open>h64_create\<close> by calls of
  \<^verbatim>\<open>h64_insert\<close>, \<^verbatim>\<open>h64_insert_new\<close>, \<^verbatim>\<open>h64_erase\<close> and \<^verbatim>\<open>h64_reserve\<close> that have returned;
  the handles inserted are not \<^verbatim>\<open>NULL\<close>, and the heap is arbitrary at every call.
\<close>

definition popcount :: "'a::len word \<Rightarrow> nat" where
  "popcount w = length (filter (bit w) [0..<LENGTH('a)])"

definition table_invariant :: "h64 \<Rightarrow> bool" where
  "table_invariant h \<longleftrightarrow>
     (\<forall>g\<in>set (groups h).
        popcount (status g AND 0x7F) = length (filter (\<lambda>e. e \<noteq> NULL) (entries g)) \<and>
        (status g AND 0x7F = 0x7F \<longrightarrow> bit (status g) 7) \<and>
        (\<forall>i<GROUP_ENTRIES. bit (status g) i \<longrightarrow>
           hints g ! i = hash_hint (hasher h (entries g ! i) (seed h)))) \<and>
     sum_list (map (\<lambda>g. popcount (status g AND 0x7F)) (groups h)) = count h"

inductive reachable :: "h64 \<Rightarrow> bool" where
  create: "h64_create w hf ef = Inr (w', h) \<Longrightarrow> reachable h"
| insert: "reachable h \<Longrightarrow> e \<noteq> NULL \<Longrightarrow> h64_insert w h e = Some (Inr (w', h')) \<Longrightarrow> reachable h'"
| insert_new: "reachable h \<Longrightarrow> e \<noteq> NULL \<Longrightarrow> h64_insert_new w h e = Some (Inr (w', h')) \<Longrightarrow> reachable h'"
| erase: "reachable h \<Longrightarrow> h64_erase w h e = Some (Inr (w', h', ret)) \<Longrightarrow> reachable h'"
| reserve: "reachable h \<Longrightarrow> h64_reserve w h n = Some (Inr (w', h')) \<Longrightarrow> reachable h'"

lemma reachable_ok: "reachable h \<Longrightarrow> h64_ok h"
proof (induction rule: reachable.induct)
  case (create w hf ef w' h)
  then show ?case
    by (simp add: h64_create_wf h64_ok_def)
next
  case (insert h e w w' h')
  then show ?case
    by (auto simp add: h64_ok_def h64_insert_wf h64_insert_wrapped)
next
  case (insert_new h e w w' h')
  then show ?case
    by (auto simp add: h64_ok_def h64_insert_new_wf h64_insert_new_wrapped)
next
  case (erase h w e w' h' ret)
  then show ?case
    by (auto simp add: h64_ok_def h64_erase_wf h64_erase_wrapped)
next
  case (reserve h w n w' h')
  from reserve(3) show ?case
  proof (cases "h64_wf h")
    case True
    from h64_reserve_wf [OF this reserve(2)] show ?thesis
      by simp
  next
    case False
    with reserve(3) have "h64_wrapped h"
      by (simp add: h64_ok_def)
    from h64_resize_wrapped [OF this] h64_reserve_resize [OF reserve(2)] show ?thesis
      by blast
  qed
qed

lemma h64_ok_returns:
  assumes "h64_ok h"
  shows "h64_insert w h e = Some (Inr x) \<Longrightarrow> h64_wf h"
    and "h64_insert_new w h e = Some (Inr x) \<Longrightarrow> h64_wf h"
    and "h64_erase w h e = Some (Inr y) \<Longrightarrow> h64_wf h"
    and "h64_reserve w h n = Some (Inr x) \<Longrightarrow> h64_wf h"
    and "h64_find h e = Some (Inr z) \<Longrightarrow> h64_wf h"
  using assms h64_insert_wrapped [of h w e] h64_insert_new_wrapped [of h w e]
    h64_erase_wrapped [of h w e] h64_find_wrapped [of h e]
    h64_resize_wrapped [of h w _ x] h64_reserve_resize [of w h n x]
  by (auto simp add: h64_ok_def)

lemma reachable_small: "reachable h \<Longrightarrow> size_in_groups h < 2 ^ 58 \<Longrightarrow> h64_wf h"
  using reachable_ok [of h] by (auto simp add: h64_ok_def h64_wrapped_def)


lemma popcount_presence:
  "popcount (s AND 0x7F) = length (filter (bit s) [0..<GROUP_ENTRIES])" for s :: "8 word"
proof -
  have "[0..<8::nat] = [0..<7] @ [7]"
    using upt_Suc_append [of 0 7] by simp
  moreover have "filter (bit (s AND mask 7)) [0..<7] = filter (bit s) [0..<7]"
    by (intro filter_cong) (simp_all add: bit_simps)
  ultimately have "filter (bit (s AND mask 7)) [0..<8] = filter (bit s) [0..<7]"
    by (simp add: bit_simps)
  then show ?thesis
    by (simp add: popcount_def entries_mask_eq GROUP_ENTRIES_def)
qed

lemma group_wf_popcount:
  assumes "group_wf hash g"
  shows "popcount (status g AND 0x7F) = length (filter (\<lambda>e. e \<noteq> NULL) (entries g))"
    and "popcount (status g AND 0x7F) = size (group_contents g)"
proof -
  have "filter (\<lambda>e. e \<noteq> NULL) (entries g) =
      filter (\<lambda>e. e \<noteq> NULL) (map (nth (entries g)) [0..<GROUP_ENTRIES])"
    using assms map_nth [of "entries g"] by (simp add: group_wf_def)
  also have "length \<dots> = length (filter (\<lambda>i. entries g ! i \<noteq> NULL) [0..<GROUP_ENTRIES])"
    by (simp add: filter_map comp_def)
  also have "filter (\<lambda>i. entries g ! i \<noteq> NULL) [0..<GROUP_ENTRIES] = filter (bit (status g)) [0..<GROUP_ENTRIES]"
    using assms by (intro filter_cong) (simp_all add: group_wf_def)
  finally show "popcount (status g AND 0x7F) = length (filter (\<lambda>e. e \<noteq> NULL) (entries g))"
    by (simp add: popcount_presence)
  then show "popcount (status g AND 0x7F) = size (group_contents g)"
    by (simp add: group_contents_def del: mset_filter)
qed

lemma h64_wf_invariant:
  assumes "h64_wf h"
  shows "table_invariant h"
  unfolding table_invariant_def
proof (intro conjI ballI)
  fix g
  assume "g \<in> set (groups h)"
  with assms have g: "group_wf (h64_hash h) g"
    by (simp add: h64_wf_def)
  then show "popcount (status g AND 0x7F) = length (filter (\<lambda>e. e \<noteq> NULL) (entries g))"
    by (rule group_wf_popcount)
  from g show "status g AND 0x7F = 0x7F \<longrightarrow> bit (status g) 7"
    by (simp add: group_wf_def group_is_full_def ENTRIES_MASK_def group_was_full_iff)
  from g show "\<forall>i<GROUP_ENTRIES. bit (status g) i \<longrightarrow>
      hints g ! i = hash_hint (hasher h (entries g ! i) (seed h))"
    by (simp add: group_wf_def h64_hash_def)
next
  have "map (\<lambda>g. popcount (status g AND 0x7F)) (groups h) = map (size \<circ> group_contents) (groups h)"
    using assms by (intro map_cong) (auto simp add: h64_wf_def dest: group_wf_popcount(2))
  with assms show "sum_list (map (\<lambda>g. popcount (status g AND 0x7F)) (groups h)) = count h"
    by (simp add: h64_wf_def contents_def size_sum_list_mset cong: map_cong)
qed

lemma h64_wrapped_invariant:
  assumes "h64_wrapped h"
  shows "table_invariant h"
  using assms by (simp add: table_invariant_def h64_wrapped_def)

definition ex_empty_table :: h64 where
  "ex_empty_table = \<lparr>hasher = key_hasher, equals = key_equals, seed = mixer64 0x2000,
     groups = [zero_group, zero_group, zero_group, zero_group], size_in_groups = 4, count = 0\<rparr>"

definition ex_one_table :: h64 where
  "ex_one_table = ex_empty_table\<lparr>groups := [zero_group,
       \<lparr>status = 1, hints = [1, 0, 0, 0, 0, 0, 0], entries = [0x10, 0, 0, 0, 0, 0, 0]\<rparr>,
       zero_group, zero_group], count := 1\<rparr>"

lemma ex_empty_table_create:
  "h64_create [0x1000, 0x2000] key_hasher key_equals = Inr ([], ex_empty_table)"
  by (simp add: h64_eval ex_empty_table_def)

lemma ex_one_table_insert: "h64_insert [] ex_empty_table 0x10 = Some (Inr ([], ex_one_table))"
  by (simp add: h64_eval ex_empty_table_def ex_one_table_def)

lemma ex_one_table_reachable: "reachable ex_one_table"
proof -
  have "reachable ex_empty_table"
    using ex_empty_table_create by (rule reachable.create)
  moreover have "(0x10 :: ptr) \<noteq> NULL"
    by (simp add: NULL_def)
  ultimately show ?thesis
    using ex_one_table_insert by (rule reachable.insert)
qed

text \<open>
  A table whose byte count has wrapped: \<^verbatim>\<open>h64_reserve\<close> of \<open>10 ^ 18\<close> entries on a new
  table asks for \<open>2 ^ 58\<close> groups, which are \<open>2 ^ 64\<close> bytes, and \<^verbatim>\<open>h64_init\<close> allocates
  \<open>2 ^ 64 mod 2 ^ 64 = 0\<close> bytes. The call returns; every later call reads beyond the
  array.
\<close>

definition ex_wrapped :: h64 where
  "ex_wrapped = \<lparr>hasher = key_hasher, equals = key_equals, seed = mixer64 0x3000,
     groups = [], size_in_groups = 2 ^ 58, count = 0\<rparr>"

lemma h64_reserve_wrap: "h64_reserve w h (10 ^ 18) = h64_resize w h (2 ^ 58)"
  by (simp add: h64_reserve_def roundup_to_pow2_def GROUP_ENTRIES_def size_of_double_def
      double_div_def MAX_LOAD_FACTOR_def double_of_size_def double_round_def ilog2_ratio_def
      rne_div_def compute_floorlog Let_def)

lemma ex_wrapped_reserve:
  "h64_reserve [0x3000] ex_empty_table (10 ^ 18) = Some (Inr ([], ex_wrapped))"
  unfolding h64_reserve_wrap
  by (simp add: h64_eval h64_resize_eq h64_resize_loop_Nil h64_for_each_def
      ex_empty_table_def ex_wrapped_def)

lemma ex_wrapped_reachable: "reachable ex_wrapped"
proof -
  have "reachable ex_empty_table"
    using ex_empty_table_create by (rule reachable.create)
  then show ?thesis
    using ex_wrapped_reserve by (rule reachable.reserve)
qed


text \<open>
  Claim C4. Every table reachable by the public operations satisfies the invariant: in
  every group the number of presence bits is the number of entries that are not
  \<^verbatim>\<open>NULL\<close>, a group with its seven presence bits set has bit 7 set, the hint of every
  occupied slot is the high byte of the hash of its entry under the table's seed, and
  the presence bits of all groups add up to \<^verbatim>\<open>count\<close>. The groups quantified over are
  those of the allocated array. (The proof keeps the stronger \<open>h64_ok\<close>, which every
  operation preserves: lemma \<open>reachable_ok\<close>. A table is \<open>h64_wf\<close>, or it is \<open>h64_wrapped\<close>:
  \<^verbatim>\<open>h64_reserve\<close> has given an empty table \<open>2 ^ 58\<close> groups or more, the byte count of
  the array has wrapped to 0, and no later call on the table returns.)
\<close>

theorem reachable_table_invariant:
  assumes "reachable h"
  shows "table_invariant h"
  using reachable_ok [OF assms] h64_wf_invariant [of h] h64_wrapped_invariant [of h]
  by (auto simp add: h64_ok_def)

theorem reachable_table_invariant_witness:
  "reachable ex_one_table \<and> table_invariant ex_one_table \<and> count ex_one_table = 1 \<and>
   reachable ex_wrapped \<and> table_invariant ex_wrapped \<and> groups ex_wrapped = [] \<and>
   size_in_groups ex_wrapped = 2 ^ 58"
  using reachable_table_invariant [OF ex_one_table_reachable] ex_one_table_reachable
    reachable_table_invariant [OF ex_wrapped_reachable] ex_wrapped_reachable
  by (simp add: ex_one_table_def ex_wrapped_def)

section \<open>Sequences of calls\<close>

text \<open>
  A client's calls of the public operations, one after the other on the table the call
  before returned; the handle that \<^verbatim>\<open>h64_erase\<close> returns is dropped.
\<close>

datatype api_call = Call_insert ptr | Call_insert_new ptr | Call_erase ptr | Call_reserve nat

fun h64_call :: "heap \<Rightarrow> h64 \<Rightarrow> api_call \<Rightarrow> (heap \<times> h64) outcome" where
  "h64_call w h (Call_insert e) = h64_insert w h e"
| "h64_call w h (Call_insert_new e) = h64_insert_new w h e"
| "h64_call w h (Call_erase e) = bind_outcome (h64_erase w h e) (\<lambda>(w1, h1, ret). Some (Inr (w1, h1)))"
| "h64_call w h (Call_reserve n) = h64_reserve w h n"

fun h64_calls :: "heap \<Rightarrow> h64 \<Rightarrow> api_call list \<Rightarrow> (heap \<times> h64) outcome" where
  "h64_calls w h [] = Some (Inr (w, h))"
| "h64_calls w h (c # cs) = bind_outcome (h64_call w h c) (\<lambda>(w1, h1). h64_calls w1 h1 cs)"

fun call_ok :: "api_call \<Rightarrow> bool" where
  "call_ok (Call_insert e) \<longleftrightarrow> e \<noteq> NULL"
| "call_ok (Call_insert_new e) \<longleftrightarrow> e \<noteq> NULL"
| "call_ok (Call_erase e) \<longleftrightarrow> True"
| "call_ok (Call_reserve n) \<longleftrightarrow> True"

lemma h64_call_reachable:
  assumes "reachable h" and "h64_call w h c = Some (Inr (w', h'))" and "call_ok c"
  shows "reachable h'"
proof (cases c)
  case (Call_insert e)
  with assms show ?thesis
    by (auto intro: reachable.insert)
next
  case (Call_insert_new e)
  with assms show ?thesis
    by (auto intro: reachable.insert_new)
next
  case (Call_erase e)
  with assms(2) obtain ret where "h64_erase w h e = Some (Inr (w', h', ret))"
    by (auto simp add: bind_outcome_def split: option.splits sum.splits)
  with assms(1) show ?thesis
    by (rule reachable.erase)
next
  case (Call_reserve n)
  with assms show ?thesis
    by (auto intro: reachable.reserve)
qed

lemma h64_calls_reachable:
  assumes "reachable h" and "h64_calls w h cs = Some (Inr (w', h'))" and "list_all call_ok cs"
  shows "reachable h'"
  using assms
proof (induction cs arbitrary: w h)
  case Nil
  then show ?case
    by simp
next
  case (Cons c cs)
  from Cons.prems(2) obtain w1 h1 where c: "h64_call w h c = Some (Inr (w1, h1))"
    and cs: "h64_calls w1 h1 cs = Some (Inr (w', h'))"
    by (auto simp add: bind_outcome_def split: option.splits sum.splits)
  from Cons.prems(1) c have "reachable h1"
    by (rule h64_call_reachable) (use Cons.prems(3) in simp)
  then show ?case
    using cs by (rule Cons.IH) (use Cons.prems(3) in simp)
qed


lemma ex_empty_table_reachable: "reachable ex_empty_table"
  using ex_empty_table_create by (rule reachable.create)

section \<open>Example tables\<close>

text \<open>Nineteen keys in the four groups of a new table, and a table whose groups were all full once.\<close>

definition ex_table_19 :: h64 where
  "ex_table_19 = \<lparr>hasher = key_hasher, equals = key_equals, seed = mixer64 0x2000,
     groups =
      [\<lparr>status = 0x0F, hints = [4, 8, 12, 16, 0, 0, 0],
        entries = [0x40, 0x80, 0xC0, 0x100, 0, 0, 0]\<rparr>,
       \<lparr>status = 0x1F, hints = [1, 5, 9, 13, 17, 0, 0],
        entries = [0x10, 0x50, 0x90, 0xD0, 0x110, 0, 0]\<rparr>,
       \<lparr>status = 0x1F, hints = [2, 6, 10, 14, 18, 0, 0],
        entries = [0x20, 0x60, 0xA0, 0xE0, 0x120, 0, 0]\<rparr>,
       \<lparr>status = 0x1F, hints = [3, 7, 11, 15, 19, 0, 0],
        entries = [0x30, 0x70, 0xB0, 0xF0, 0x130, 0, 0]\<rparr>],
     size_in_groups = 4, count = 19\<rparr>"

lemma ex_table_19_calls:
  "h64_calls [] ex_empty_table
     [Call_insert 0x10, Call_insert 0x20, Call_insert 0x30, Call_insert 0x40, Call_insert 0x50, Call_insert 0x60, Call_insert 0x70, Call_insert 0x80, Call_insert 0x90, Call_insert 0xA0, Call_insert 0xB0, Call_insert 0xC0, Call_insert 0xD0, Call_insert 0xE0, Call_insert 0xF0, Call_insert 0x100, Call_insert 0x110, Call_insert 0x120, Call_insert 0x130] = Some (Inr ([], ex_table_19))"
  by (simp add: h64_eval ex_empty_table_def ex_table_19_def)

definition ex_tombstones :: h64 where
  "ex_tombstones = \<lparr>hasher = key_hasher, equals = key_equals, seed = mixer64 0x2000,
     groups =
      [\<lparr>status = 0x80, hints = [0, 0, 0, 0, 0, 0, 0],
        entries = [0, 0, 0, 0, 0, 0, 0]\<rparr>,
       \<lparr>status = 0x80, hints = [0, 0, 0, 0, 0, 0, 0],
        entries = [0, 0, 0, 0, 0, 0, 0]\<rparr>,
       \<lparr>status = 0x80, hints = [0, 0, 0, 0, 0, 0, 0],
        entries = [0, 0, 0, 0, 0, 0, 0]\<rparr>,
       \<lparr>status = 0x80, hints = [0, 0, 0, 0, 0, 0, 0],
        entries = [0, 0, 0, 0, 0, 0, 0]\<rparr>],
     size_in_groups = 4, count = 0\<rparr>"

lemma ex_tombstones_calls:
  "h64_calls [] ex_empty_table
     [Call_insert 0x40, Call_insert 0x80, Call_insert 0xC0, Call_insert 0x100, Call_insert 0x140, Call_insert 0x180, Call_insert 0x1C0, Call_erase 0x40, Call_erase 0x80, Call_erase 0xC0, Call_erase 0x100, Call_erase 0x140, Call_erase 0x180, Call_erase 0x1C0, Call_insert 0x50, Call_insert 0x90, Call_insert 0xD0, Call_insert 0x110, Call_insert 0x150, Call_insert 0x190, Call_insert 0x1D0, Call_erase 0x50, Call_erase 0x90, Call_erase 0xD0, Call_erase 0x110, Call_erase 0x150, Call_erase 0x190, Call_erase 0x1D0, Call_insert 0x60, Call_insert 0xA0, Call_insert 0xE0, Call_insert 0x120, Call_insert 0x160, Call_insert 0x1A0, Call_insert 0x1E0, Call_erase 0x60, Call_erase 0xA0, Call_erase 0xE0, Call_erase 0x120, Call_erase 0x160, Call_erase 0x1A0, Call_erase 0x1E0, Call_insert 0x70, Call_insert 0xB0, Call_insert 0xF0, Call_insert 0x130, Call_insert 0x170, Call_insert 0x1B0, Call_insert 0x1F0, Call_erase 0x70, Call_erase 0xB0, Call_erase 0xF0, Call_erase 0x130, Call_erase 0x170, Call_erase 0x1B0, Call_erase 0x1F0] = Some (Inr ([], ex_tombstones))"
  by (simp add: h64_eval ex_empty_table_def ex_tombstones_def)

lemma max_count_56: "size_of_double (double_mul MAX_LOAD_FACTOR (double_of_size 56)) = 37"
  by (simp add: size_of_double_def double_mul_def MAX_LOAD_FACTOR_def double_of_size_def
      double_round_def ilog2_ratio_def rne_div_def compute_floorlog Let_def)

lemma min_count_56: "size_of_double (double_mul MIN_LOAD_FACTOR (double_of_size 56)) = 9"
  by (simp add: size_of_double_def double_mul_def double_div_def MIN_LOAD_FACTOR_def
      MAX_LOAD_FACTOR_def double_of_size_def double_round_def ilog2_ratio_def rne_div_def
      compute_floorlog Let_def)

lemma h64_reserve_1: "h64_reserve w h (Suc 0) = h64_resize w h (Suc 0)"
  by (simp add: h64_reserve_def roundup_to_pow2_def GROUP_ENTRIES_def size_of_double_def
      double_div_def MAX_LOAD_FACTOR_def double_of_size_def double_round_def ilog2_ratio_def
      rne_div_def compute_floorlog Let_def)

lemma h64_reserve_19: "h64_reserve w h 19 = h64_resize w h 8"
  by (simp add: h64_reserve_def roundup_to_pow2_def GROUP_ENTRIES_def size_of_double_def
      double_div_def MAX_LOAD_FACTOR_def double_of_size_def double_round_def ilog2_ratio_def
      rne_div_def compute_floorlog Let_def)

lemmas h64_eval_resize =
  h64_eval h64_reserve_1 h64_reserve_19 h64_grow_up_def h64_grow_down_def h64_resize_eq
  h64_resize_loop_Nil h64_resize_loop_Cons h64_for_each_def max_count_56 min_count_56



definition ex_table_10 :: h64 where
  "ex_table_10 = \<lparr>hasher = key_hasher, equals = key_equals, seed = mixer64 0x3000,
     groups =
      [\<lparr>status = 0x01, hints = [8, 0, 0, 0, 0, 0, 0],
        entries = [0x80, 0, 0, 0, 0, 0, 0]\<rparr>,
       \<lparr>status = 0x03, hints = [1, 9, 0, 0, 0, 0, 0],
        entries = [0x10, 0x90, 0, 0, 0, 0, 0]\<rparr>,
       \<lparr>status = 0x03, hints = [2, 10, 0, 0, 0, 0, 0],
        entries = [0x20, 0xA0, 0, 0, 0, 0, 0]\<rparr>,
       \<lparr>status = 0x01, hints = [3, 0, 0, 0, 0, 0, 0],
        entries = [0x30, 0, 0, 0, 0, 0, 0]\<rparr>,
       \<lparr>status = 0x01, hints = [4, 0, 0, 0, 0, 0, 0],
        entries = [0x40, 0, 0, 0, 0, 0, 0]\<rparr>,
       \<lparr>status = 0x01, hints = [5, 0, 0, 0, 0, 0, 0],
        entries = [0x50, 0, 0, 0, 0, 0, 0]\<rparr>,
       \<lparr>status = 0x01, hints = [6, 0, 0, 0, 0, 0, 0],
        entries = [0x60, 0, 0, 0, 0, 0, 0]\<rparr>,
       \<lparr>status = 0x01, hints = [7, 0, 0, 0, 0, 0, 0],
        entries = [0x70, 0, 0, 0, 0, 0, 0]\<rparr>],
     size_in_groups = 8, count = 10\<rparr>"
definition ex_table_9 :: h64 where
  "ex_table_9 = \<lparr>hasher = key_hasher, equals = key_equals, seed = mixer64 0x3000,
     groups =
      [\<lparr>status = 0x01, hints = [8, 0, 0, 0, 0, 0, 0],
        entries = [0x80, 0, 0, 0, 0, 0, 0]\<rparr>,
       \<lparr>status = 0x03, hints = [1, 9, 0, 0, 0, 0, 0],
        entries = [0x10, 0x90, 0, 0, 0, 0, 0]\<rparr>,
       \<lparr>status = 0x01, hints = [2, 0, 0, 0, 0, 0, 0],
        entries = [0x20, 0, 0, 0, 0, 0, 0]\<rparr>,
       \<lparr>status = 0x01, hints = [3, 0, 0, 0, 0, 0, 0],
        entries = [0x30, 0, 0, 0, 0, 0, 0]\<rparr>,
       \<lparr>status = 0x01, hints = [4, 0, 0, 0, 0, 0, 0],
        entries = [0x40, 0, 0, 0, 0, 0, 0]\<rparr>,
       \<lparr>status = 0x01, hints = [5, 0, 0, 0, 0, 0, 0],
        entries = [0x50, 0, 0, 0, 0, 0, 0]\<rparr>,
       \<lparr>status = 0x01, hints = [6, 0, 0, 0, 0, 0, 0],
        entries = [0x60, 0, 0, 0, 0, 0, 0]\<rparr>,
       \<lparr>status = 0x01, hints = [7, 0, 0, 0, 0, 0, 0],
        entries = [0x70, 0, 0, 0, 0, 0, 0]\<rparr>],
     size_in_groups = 8, count = 9\<rparr>"
definition ex_table_8 :: h64 where
  "ex_table_8 = \<lparr>hasher = key_hasher, equals = key_equals, seed = mixer64 0x4000,
     groups =
      [\<lparr>status = 0x03, hints = [8, 4, 0, 0, 0, 0, 0],
        entries = [0x80, 0x40, 0, 0, 0, 0, 0]\<rparr>,
       \<lparr>status = 0x03, hints = [1, 5, 0, 0, 0, 0, 0],
        entries = [0x10, 0x50, 0, 0, 0, 0, 0]\<rparr>,
       \<lparr>status = 0x03, hints = [2, 6, 0, 0, 0, 0, 0],
        entries = [0x20, 0x60, 0, 0, 0, 0, 0]\<rparr>,
       \<lparr>status = 0x03, hints = [3, 7, 0, 0, 0, 0, 0],
        entries = [0x30, 0x70, 0, 0, 0, 0, 0]\<rparr>],
     size_in_groups = 4, count = 8\<rparr>"

lemma ex_table_10_calls:
  "h64_calls [0x3000] ex_empty_table
     [Call_reserve 19, Call_insert 0x10, Call_insert 0x20, Call_insert 0x30, Call_insert 0x40, Call_insert 0x50, Call_insert 0x60, Call_insert 0x70, Call_insert 0x80, Call_insert 0x90, Call_insert 0xA0] = Some (Inr ([], ex_table_10))"
  by (simp add: h64_eval_resize ex_empty_table_def ex_table_10_def)

lemma ex_table_10_erase: "h64_erase [] ex_table_10 0xA0 = Some (Inr ([], ex_table_9, 0xA0))"
  by (simp add: h64_eval_resize ex_table_10_def ex_table_9_def)

lemma ex_table_9_erase: "h64_erase [0x4000] ex_table_9 0x90 = Some (Inr ([], ex_table_8, 0x90))"
  by (simp add: h64_eval_resize ex_table_9_def ex_table_8_def)

lemma find_entry_loop_None:
  assumes "\<And>n. probe_at seq n < length (groups h) \<and>
    group_was_full (groups h ! probe_at seq n) \<and>
    group_candidate h e hint (groups h ! probe_at seq n) = None"
  shows "find_entry_loop h e hint seq = None"
proof (cases "find_entry_loop h e hint seq")
  case None
  then show ?thesis .
next
  case (Some r)
  show ?thesis
  proof (cases r)
    case (Inl err)
    from find_entry_loop_Inl [OF Some Inl] assms show ?thesis
      by blast
  next
    case (Inr r')
    from find_entry_loop_Some [OF Some Inr] obtain n where
      "case group_candidate h e hint (groups h ! probe_at seq n) of
         Some idx \<Rightarrow> r' = find_result_init (Some (probe_at seq n)) idx True
       | None \<Rightarrow> \<not> group_was_full (groups h ! probe_at seq n) \<and>
           r' = find_result_init None (2 ^ 64 - 1) False"
      by blast
    with assms [of n] show ?thesis
      by simp
  qed
qed

lemma ex_tombstones_reachable: "reachable ex_tombstones"
  using ex_empty_table_reachable ex_tombstones_calls by (rule h64_calls_reachable) (simp add: NULL_def)

lemma ex_tombstones_find_entry: "h64_find_entry ex_tombstones e hash = None"
  unfolding h64_find_entry_def
proof (rule find_entry_loop_None)
  fix n
  let ?seq = "ps_init hash (size_in_groups ex_tombstones)"
  have "size_mask ?seq = 2 ^ 2 - 1"
    by (simp add: ps_init_def ex_tombstones_def)
  then have "probe_at ?seq n < 2 ^ 2"
    by (rule probe_at_less)
  then have "probe_at ?seq n \<in> {0, 1, 2, 3}"
    by auto
  then show "probe_at ?seq n < length (groups ex_tombstones) \<and>
    group_was_full (groups ex_tombstones ! probe_at ?seq n) \<and>
    group_candidate ex_tombstones e (hash_hint hash) (groups ex_tombstones ! probe_at ?seq n) = None"
    by (auto simp add: ex_tombstones_def group_was_full_def group_candidate_def
        group_match_inserted_def hints_movemask_def ENTRIES_MASK_def match_loop.simps)
qed

section \<open>C10: a lookup that does not return\<close>

text \<open>
  Claim C10 says that a reachable table has a group whose was-full bit is clear on every
  probe path, so that the loop of \<^verbatim>\<open>h64_find_entry\<close> ends. The table \<open>ex_tombstones\<close> is
  reached from a new table by inserting seven keys of one home group and erasing them,
  for each of the four groups in turn: the count never exceeds 7, the table never grows
  or shrinks, and in the end every group has its was-full bit set and no entry. On that
  table \<^verbatim>\<open>h64_find\<close> returns for no handle.
\<close>

theorem find_does_not_return:
  "reachable ex_tombstones \<and> count ex_tombstones = 0 \<and>
   \<not> h64_should_grow_up ex_tombstones \<and> \<not> h64_should_grow_down ex_tombstones \<and>
   list_all group_was_full (groups ex_tombstones) \<and>
   h64_find ex_tombstones e = None"
  using ex_tombstones_reachable
  by (simp add: h64_find_def bind_outcome_def ex_tombstones_find_entry)
    (simp add: ex_tombstones_def group_was_full_def h64_should_grow_up_def
      h64_should_grow_down_def GROUP_ENTRIES_def MIN_SIZE_def DEFAULT_SIZE_def max_count_28)

section \<open>C6: an erase that does not return\<close>

text \<open>
  Claim C6 says that \<^verbatim>\<open>h64_erase\<close> returns \<^verbatim>\<open>NULL\<close> and leaves the table as it is when no
  stored element equals the probe. On the reachable table \<open>ex_tombstones\<close>, which stores
  nothing, \<^verbatim>\<open>h64_erase\<close> returns for no handle and no heap: its lookup is the loop of
  \<^verbatim>\<open>h64_find_entry\<close>, which finds every group was-full.
\<close>

theorem erase_does_not_return:
  "reachable ex_tombstones \<and> contents ex_tombstones = {#} \<and> h64_erase w ex_tombstones e = None"
  using ex_tombstones_reachable
  by (simp add: h64_erase_def ex_tombstones_find_entry)
    (simp add: ex_tombstones_def contents_def group_contents_def NULL_def)

section \<open>The cases of an insert and of an erase\<close>

lemma h64_insert_cases [consumes 3, case_names Update Install]:
  assumes wf: "h64_wf h" and e: "e \<noteq> NULL" and ins: "h64_insert w h e = Some (Inr (w', h'))"
  obtains (Update) h1 n idx where
      "(if h64_should_grow_up h then h64_grow_up w h else Some (Inr (w, h))) = Some (Inr (w', h1))"
      "idx < GROUP_ENTRIES"
      "bit (status (groups h1 ! probe h1 (h64_hash h1 e) n)) idx"
      "hints (groups h1 ! probe h1 (h64_hash h1 e) n) ! idx = hash_hint (h64_hash h1 e)"
      "h64_equals h1 e (entries (groups h1 ! probe h1 (h64_hash h1 e) n) ! idx)"
      "\<forall>m<n. group_was_full (groups h1 ! probe h1 (h64_hash h1 e) m)"
      "h' = h1\<lparr>groups := (groups h1)[probe h1 (h64_hash h1 e) n :=
         (groups h1 ! probe h1 (h64_hash h1 e) n)
           \<lparr>entries := (entries (groups h1 ! probe h1 (h64_hash h1 e) n))[idx := e]\<rparr>]\<rparr>"
  | (Install) h1 result where
      "(if h64_should_grow_up h then h64_grow_up w h else Some (Inr (w, h))) = Some (Inr (w', h1))"
      "h64_find_entry h1 e (h64_hash h1 e) = Some (Inr (find_result_init None (2 ^ 64 - 1) False))"
      "h64_find_empty_entry h1 (h64_hash h1 e) = Some (Inr result)"
      "install_entry h1 result e (hash_hint (h64_hash h1 e)) = Inr h'"
proof -
  from ins obtain w1 h1 where
    grown: "(if h64_should_grow_up h then h64_grow_up w h else Some (Inr (w, h))) = Some (Inr (w1, h1))"
    by (auto simp add: h64_insert_def bind_outcome_def split: option.splits sum.splits)
  from h64_grow_wf [OF wf grown] have wf1: "h64_wf h1"
    by simp
  from ins grown obtain result where
    result: "h64_find_entry h1 e (h64_hash h1 e) = Some (Inr result)"
    by (auto simp add: h64_insert_def bind_outcome_def Let_def split: option.splits sum.splits)
  show ?thesis
  proof (cases "result_found result")
    case True
    with find_entry_cases [OF wf1 result] obtain n idx where
      r: "result = find_result_init (Some (probe h1 (h64_hash h1 e) n)) idx True"
      and idx: "idx < GROUP_ENTRIES" "bit (status (groups h1 ! probe h1 (h64_hash h1 e) n)) idx"
      and hint: "hints (groups h1 ! probe h1 (h64_hash h1 e) n) ! idx = hash_hint (h64_hash h1 e)"
      and eq: "h64_equals h1 e (entries (groups h1 ! probe h1 (h64_hash h1 e) n) ! idx)"
      and full: "\<forall>m<n. group_was_full (groups h1 ! probe h1 (h64_hash h1 e) m)"
      by (auto simp add: find_result_init_def)
    let ?p = "probe h1 (h64_hash h1 e) n"
    have p: "?p < size_in_groups h1"
      using wf1 by (rule probe_less)
    note g' = group_update_wf [OF in_groups_wf [OF wf1 p] idx hint e]
    have "h' = h1\<lparr>groups := (groups h1)[?p := (groups h1 ! ?p)\<lparr>entries := (entries (groups h1 ! ?p))[idx := e]\<rparr>]\<rparr>"
      and w': "w' = w1"
      using ins grown result True g' r
      by (simp_all add: h64_insert_def bind_outcome_def Let_def find_result_init_def)
    with grown idx hint eq full show ?thesis
      by (intro Update [of h1 idx n]) simp_all
  next
    case False
    with find_entry_cases [OF wf1 result]
    have r: "result = find_result_init None (2 ^ 64 - 1) False"
      by (auto simp add: find_result_init_def)
    from False ins grown result obtain result1 where
      "h64_find_empty_entry h1 (h64_hash h1 e) = Some (Inr result1)"
      "install_entry h1 result1 e (hash_hint (h64_hash h1 e)) = Inr h'" "w' = w1"
      by (auto simp add: h64_insert_def bind_outcome_def Let_def split: option.splits sum.splits)
    with grown result r show ?thesis
      by (intro Install [of h1 result1]) simp_all
  qed
qed

lemma h64_erase_cases [consumes 2, case_names Absent Present]:
  assumes wf: "h64_wf h" and er: "h64_erase w h e = Some (Inr (w', h', ret))"
  obtains (Absent) "ret = NULL" "h' = h" "w' = w"
      "h64_find_entry h e (h64_hash h e) = Some (Inr (find_result_init None (2 ^ 64 - 1) False))"
  | (Present) n idx h1 where
      "idx < GROUP_ENTRIES"
      "bit (status (groups h ! probe h (h64_hash h e) n)) idx"
      "h64_equals h e (entries (groups h ! probe h (h64_hash h e) n) ! idx)"
      "ret = entries (groups h ! probe h (h64_hash h e) n) ! idx" "ret \<noteq> NULL" "0 < count h"
      "h1 = h\<lparr>groups := (groups h)[probe h (h64_hash h e) n :=
         (groups h ! probe h (h64_hash h e) n)
           \<lparr>entries := (entries (groups h ! probe h (h64_hash h e) n))[idx := NULL],
            hints := (hints (groups h ! probe h (h64_hash h e) n))[idx := 0],
            status := status (groups h ! probe h (h64_hash h e) n) AND NOT (2 ^ idx)\<rparr>],
         count := count h - 1\<rparr>"
      "h64_wf h1"
      "(if h64_should_grow_down h1 then h64_grow_down w h1 else Some (Inr (w, h1))) = Some (Inr (w', h'))"
proof -
  from er obtain result where result: "h64_find_entry h e (h64_hash h e) = Some (Inr result)"
    by (auto simp add: h64_erase_def split: option.splits sum.splits)
  show ?thesis
  proof (cases "result_found result")
    case False
    with find_entry_cases [OF wf result]
    have r: "result = find_result_init None (2 ^ 64 - 1) False"
      by (auto simp add: find_result_init_def)
    from False er result have "ret = NULL" "h' = h" "w' = w"
      by (simp_all add: h64_erase_def)
    with result r show ?thesis
      by (intro Absent) simp_all
  next
    case True
    with find_entry_cases [OF wf result] obtain n idx where
      r: "result = find_result_init (Some (probe h (h64_hash h e) n)) idx True"
      and idx: "idx < GROUP_ENTRIES" "bit (status (groups h ! probe h (h64_hash h e) n)) idx"
      and eq: "h64_equals h e (entries (groups h ! probe h (h64_hash h e) n) ! idx)"
      by (auto simp add: find_result_init_def)
    let ?p = "probe h (h64_hash h e) n"
    let ?g = "groups h ! ?p"
    let ?x = "entries ?g ! idx"
    let ?g' = "?g\<lparr>entries := (entries ?g)[idx := NULL], hints := (hints ?g)[idx := 0],
                   status := status ?g AND NOT (2 ^ idx)\<rparr>"
    have p: "?p < size_in_groups h"
      using wf by (rule probe_less)
    then have len: "?p < length (groups h)"
      using wf by (simp add: h64_wf_def)
    note g' = group_erase_wf [OF in_groups_wf [OF wf p] idx]
    have x: "?x \<in># contents h"
      using g' len by (auto simp add: contents_def intro!: bexI [of _ ?g])
    then have "contents h \<noteq> {#}"
      by auto
    then have "0 < size (contents h)"
      by (simp add: nonempty_has_size)
    then have pos: "0 < count h"
      using wf by (simp add: h64_wf_def)
    define h1 where "h1 = h\<lparr>groups := (groups h)[?p := ?g'], count := count h - 1\<rparr>"
    have eq1: "h64_erase w h e =
      bind_outcome (if h64_should_grow_down h1 then h64_grow_down w h1 else Some (Inr (w, h1)))
        (\<lambda>(w2, h2). Some (Inr (w2, h2, ?x)))"
      using result True g' r count_decrement [OF wf pos] unfolding h1_def
      by (simp add: h64_erase_def Let_def find_result_init_def del: One_nat_def)
    have wf1: "h64_wf h1"
      unfolding h1_def using wf p
    proof (rule h64_wf_update)
      show "group_wf (h64_hash h) ?g'"
        using g' by simp
      have "group_contents ?g \<noteq> {#}"
        using g' by auto
      then have "0 < size (group_contents ?g)"
        by (simp add: nonempty_has_size)
      then show "count h - 1 + size (group_contents ?g) = count h + size (group_contents ?g')"
        using g' pos by (simp add: size_Diff_singleton)
    qed
    from er eq1 have "ret = ?x"
      and "(if h64_should_grow_down h1 then h64_grow_down w h1 else Some (Inr (w, h1))) = Some (Inr (w', h'))"
      by (auto simp add: bind_outcome_Some)
    with idx eq g' pos wf1 show ?thesis
      by (intro Present [of idx n h1]) (simp_all add: h1_def)
  qed
qed

section \<open>The load of a table\<close>

text \<open>
  The grow check of an insert comes before the entry is stored, so a table holds at most
  one entry more than \<^verbatim>\<open>max_count\<close>. A rehash stores the entries of the old table one by
  one with \<^verbatim>\<open>h64_insert_new\<close>, which grows the new table when it must; the new table has
  the size asked for when the entries fit.
\<close>

definition load_ok :: "h64 \<Rightarrow> bool" where
  "load_ok h \<longleftrightarrow> count h \<le> max_count_of (size_in_groups h) + 1"

lemma max_count_of_grow:
  assumes "h64_wf h"
  shows "max_count_of (size_in_groups h) + 1 \<le> max_count_of (size_in_groups h * 2)"
proof -
  from assms obtain k where "size_in_groups h = 2 ^ k" "k < 58"
    by (auto simp add: h64_wf_def)
  with max_count_of_double [of k] show ?thesis
    by (simp add: mult.commute)
qed

lemma count_for_each:
  assumes "h64_wf h"
  shows "length (h64_for_each h) = count h"
proof -
  have "length (h64_for_each h) = size (mset (h64_for_each h))"
    by simp
  also have "\<dots> = count h"
    using assms unfolding h64_for_each_contents [OF assms] by (simp add: h64_wf_def)
  finally show ?thesis .
qed

definition rehash_load :: "heap \<Rightarrow> rehash_call \<Rightarrow> heap \<Rightarrow> h64 \<Rightarrow> bool" where
  "rehash_load w c w' h' =
     (case c of
        Insert_new h e \<Rightarrow>
          h64_wf h \<and> e \<noteq> NULL \<and> load_ok h \<longrightarrow>
            load_ok h' \<and> count h' = count h + 1 \<and>
            size_in_groups h' = (if h64_should_grow_up h then size_in_groups h * 2 else size_in_groups h)
      | Resize h sz \<Rightarrow>
          h64_wf h \<longrightarrow>
            load_ok h' \<and> count h' = count h \<and>
            (count h \<le> max_count_of (max sz MIN_SIZE) + 1 \<longrightarrow> size_in_groups h' = max sz MIN_SIZE)
      | For_each tmp es \<Rightarrow>
          h64_ok tmp \<and> NULL \<notin> set es \<and> load_ok tmp \<longrightarrow>
            load_ok h' \<and> count h' = count tmp + length es \<and>
            (count tmp + length es \<le> max_count_of (size_in_groups tmp) + 1 \<longrightarrow>
               size_in_groups h' = size_in_groups tmp))"

lemma rehash_load:
  assumes "h64_rehash (w, c) = Some (Inr (w', h'))"
  shows "rehash_load w c w' h'"
  using assms
proof (induct rule: h64_rehash_induct)
  case (Insert_new w h e w1 h1 result h2)
  show ?case
    unfolding rehash_load_def rehash_call.case
  proof (intro impI, elim conjE)
    assume wf: "h64_wf h" and e: "e \<noteq> NULL" and load: "load_ok h"
    have grown: "(if h64_should_grow_up h then h64_grow_up w h else Some (Inr (w, h))) = Some (Inr (w1, h1))"
      using Insert_new(1) unfolding h64_grow_up_def .
    from h64_grow_wf [OF wf grown] have wf1: "h64_wf h1"
      by simp
    from install_entry_wf [OF wf1 e Insert_new(3)] Insert_new(4)
    have h2: "count h2 = count h1 + 1" "size_in_groups h2 = size_in_groups h1"
      by (auto simp add: same_table_def)
    show "load_ok h2 \<and> count h2 = count h + 1 \<and>
      size_in_groups h2 = (if h64_should_grow_up h then size_in_groups h * 2 else size_in_groups h)"
    proof (cases "h64_should_grow_up h")
      case False
      with Insert_new(1) have "h1 = h"
        by simp
      with False h2 show ?thesis
        by (simp add: load_ok_def h64_should_grow_up_iff)
    next
      case True
      from Insert_new(2) [OF True, unfolded double_size_no_wrap [OF wf]] wf
      have r: "load_ok h1" "count h1 = count h"
        "count h \<le> max_count_of (max (size_in_groups h * 2) MIN_SIZE) + 1 \<longrightarrow>
           size_in_groups h1 = max (size_in_groups h * 2) MIN_SIZE"
        by (simp_all add: rehash_load_def)
      have big: "max (size_in_groups h * 2) MIN_SIZE = size_in_groups h * 2"
        using size_in_groups_bound(1) [OF wf] by (simp add: MIN_SIZE_def DEFAULT_SIZE_def)
      from load max_count_of_grow [OF wf]
      have le: "count h \<le> max_count_of (size_in_groups h * 2)"
        by (simp add: load_ok_def)
      with r(3) have "size_in_groups h1 = size_in_groups h * 2"
        by (simp add: big)
      with True h2 r(2) le show ?thesis
        by (simp add: load_ok_def)
    qed
  qed
next
  case (Resize w h sz w1 tmp w2 h2)
  show ?case
    unfolding rehash_load_def rehash_call.case
  proof (intro impI)
    assume wf: "h64_wf h"
    note tmp = h64_init_ok [OF Resize(2)]
    then have "load_ok tmp"
      by (simp add: load_ok_def)
    with Resize(5) tmp h64_for_each_not_null [of h]
    have r: "load_ok h2" "count h2 = length (h64_for_each h)"
      "length (h64_for_each h) \<le> max_count_of (size_in_groups tmp) + 1 \<longrightarrow>
         size_in_groups h2 = size_in_groups tmp"
      by (simp_all add: rehash_load_def)
    have "size_in_groups tmp = max sz MIN_SIZE"
      using tmp by (simp add: max_def)
    with r show "load_ok h2 \<and> count h2 = count h \<and>
      (count h \<le> max_count_of (max sz MIN_SIZE) + 1 \<longrightarrow> size_in_groups h2 = max sz MIN_SIZE)"
      by (simp add: count_for_each [OF wf])
  qed
next
  case (Nil w tmp)
  show ?case
    by (simp add: rehash_load_def)
next
  case (Cons w tmp e es w1 tmp1 w2 tmp2)
  show ?case
    unfolding rehash_load_def rehash_call.case
  proof (intro impI, elim conjE)
    assume ok: "h64_ok tmp" and es: "NULL \<notin> set (e # es)" and load: "load_ok tmp"
    from es have e: "e \<noteq> NULL" and es1: "NULL \<notin> set es"
      by auto
    from ok Cons(1) have wf: "h64_wf tmp"
      by (rule h64_ok_returns)
    from Cons(2) wf e load have r1: "load_ok tmp1" "count tmp1 = count tmp + 1"
      "size_in_groups tmp1 = (if h64_should_grow_up tmp then size_in_groups tmp * 2 else size_in_groups tmp)"
      by (simp_all add: rehash_load_def)
    from h64_insert_new_wf [OF wf e Cons(1)] have wf1: "h64_wf tmp1"
      by simp
    from wf1 have "h64_ok tmp1"
      by (simp add: h64_ok_def)
    with Cons(4) es1 r1(1) have r2: "load_ok tmp2" "count tmp2 = count tmp1 + length es"
      "count tmp1 + length es \<le> max_count_of (size_in_groups tmp1) + 1 \<longrightarrow>
         size_in_groups tmp2 = size_in_groups tmp1"
      by (simp_all add: rehash_load_def)
    show "load_ok tmp2 \<and> count tmp2 = count tmp + length (e # es) \<and>
      (count tmp + length (e # es) \<le> max_count_of (size_in_groups tmp) + 1 \<longrightarrow>
         size_in_groups tmp2 = size_in_groups tmp)"
    proof (intro conjI impI)
      show "load_ok tmp2"
        by (rule r2(1))
      show "count tmp2 = count tmp + length (e # es)"
        using r1(2) r2(2) by simp
      assume le: "count tmp + length (e # es) \<le> max_count_of (size_in_groups tmp) + 1"
      then have "\<not> h64_should_grow_up tmp"
        by (simp add: h64_should_grow_up_iff)
      with r1(3) have "size_in_groups tmp1 = size_in_groups tmp"
        by simp
      with r2(3) le r1(2) show "size_in_groups tmp2 = size_in_groups tmp"
        by simp
    qed
  qed
qed

lemma h64_resize_load:
  assumes "h64_wf h" and "h64_resize w h sz = Some (Inr (w', h'))"
  shows "load_ok h' \<and> count h' = count h \<and>
    (count h \<le> max_count_of (max sz MIN_SIZE) + 1 \<longrightarrow> size_in_groups h' = max sz MIN_SIZE)"
  using rehash_load [OF assms(2) [unfolded h64_resize_def]] assms(1)
  by (simp add: rehash_load_def)

lemma h64_insert_new_load:
  assumes "h64_wf h" and "e \<noteq> NULL" and "load_ok h" and "h64_insert_new w h e = Some (Inr (w', h'))"
  shows "load_ok h' \<and> count h' = count h + 1 \<and>
    size_in_groups h' = (if h64_should_grow_up h then size_in_groups h * 2 else size_in_groups h)"
  using rehash_load [OF assms(4) [unfolded h64_insert_new_def]] assms(1-3)
  by (simp add: rehash_load_def)

lemma h64_reserve_load:
  assumes "h64_wf h" and "h64_reserve w h n = Some (Inr (w', h'))"
  shows "load_ok h'"
proof -
  from assms(2) obtain sz where "h64_resize w h sz = Some (Inr (w', h'))"
    by (rule h64_reserve_resize)
  from h64_resize_load [OF assms(1) this] show ?thesis
    by simp
qed

lemma h64_grow_load:
  assumes wf: "h64_wf h" and load: "load_ok h"
    and grown: "(if h64_should_grow_up h then h64_grow_up w h else Some (Inr (w, h))) = Some (Inr (w1, h1))"
  shows "count h1 \<le> max_count_of (size_in_groups h1) \<and> count h1 = count h \<and>
    size_in_groups h1 = (if h64_should_grow_up h then size_in_groups h * 2 else size_in_groups h)"
proof (cases "h64_should_grow_up h")
  case False
  with grown show ?thesis
    by (simp add: h64_should_grow_up_iff)
next
  case True
  with grown have "h64_grow_up w h = Some (Inr (w1, h1))"
    by simp
  then have "h64_resize w h (size_in_groups h * 2) = Some (Inr (w1, h1))"
    unfolding h64_grow_up_def double_size_no_wrap [OF wf] .
  note r = h64_resize_load [OF wf this]
  have big: "max (size_in_groups h * 2) MIN_SIZE = size_in_groups h * 2"
    using size_in_groups_bound(1) [OF wf] by (simp add: MIN_SIZE_def DEFAULT_SIZE_def)
  from load max_count_of_grow [OF wf]
  have le: "count h \<le> max_count_of (size_in_groups h * 2)"
    by (simp add: load_ok_def)
  with r have "size_in_groups h1 = size_in_groups h * 2"
    by (simp add: big)
  with True r le show ?thesis
    by simp
qed

lemma h64_insert_load:
  assumes wf: "h64_wf h" and e: "e \<noteq> NULL" and load: "load_ok h"
    and ins: "h64_insert w h e = Some (Inr (w', h'))"
  shows "load_ok h' \<and>
    size_in_groups h' = (if h64_should_grow_up h then size_in_groups h * 2 else size_in_groups h)"
  using wf e ins
proof (cases rule: h64_insert_cases)
  case (Update h1 n idx)
  note g = h64_grow_load [OF wf load Update(1)]
  have eq: "count h' = count h1" "size_in_groups h' = size_in_groups h1"
    by (simp_all add: Update(7))
  from g have "count h1 \<le> max_count_of (size_in_groups h1)" ..
  then have "load_ok h'"
    unfolding load_ok_def eq by simp
  moreover from g have "size_in_groups h' =
    (if h64_should_grow_up h then size_in_groups h * 2 else size_in_groups h)"
    unfolding eq by blast
  ultimately show ?thesis ..
next
  case (Install h1 result)
  from h64_grow_wf [OF wf Install(1)] have wf1: "h64_wf h1"
    by simp
  note g = h64_grow_load [OF wf load Install(1)]
  from install_entry_wf [OF wf1 e Install(3)] Install(4)
  have eq: "count h' = count h1 + 1" "size_in_groups h' = size_in_groups h1"
    by (auto simp add: same_table_def)
  from g have "count h1 \<le> max_count_of (size_in_groups h1)" ..
  then have "load_ok h'"
    unfolding load_ok_def eq by simp
  moreover from g have "size_in_groups h' =
    (if h64_should_grow_up h then size_in_groups h * 2 else size_in_groups h)"
    unfolding eq by blast
  ultimately show ?thesis ..
qed

lemma half_size:
  assumes "h64_wf h" and "MIN_SIZE < size_in_groups h"
  shows "min_count_of (size_in_groups h) \<le> max_count_of (size_in_groups h div 2)"
    and "max (size_in_groups h div 2) MIN_SIZE = size_in_groups h div 2"
proof -
  from assms(1) obtain k where k: "size_in_groups h = 2 ^ k" "2 \<le> k" and k58: "k < 58"
    by (auto simp add: h64_wf_def)
  with assms(2) have "k \<noteq> 2"
    by (auto simp add: MIN_SIZE_def DEFAULT_SIZE_def)
  with k obtain j where j: "k = Suc j" "2 \<le> j"
    by (cases k) auto
  then have half: "size_in_groups h div 2 = 2 ^ j"
    by (simp add: k)
  show "min_count_of (size_in_groups h) \<le> max_count_of (size_in_groups h div 2)"
    unfolding half unfolding k j by (rule min_count_of_le) (use k58 j in simp)
  have "(2::nat) ^ 2 \<le> 2 ^ j"
    using j by (intro power_increasing) simp_all
  then show "max (size_in_groups h div 2) MIN_SIZE = size_in_groups h div 2"
    by (simp add: half MIN_SIZE_def DEFAULT_SIZE_def)
qed

lemma h64_erase_load:
  assumes wf: "h64_wf h" and er: "h64_erase w h e = Some (Inr (w', h', ret))" and ret: "ret \<noteq> NULL"
  shows "count h' = count h - 1 \<and>
    size_in_groups h' =
      (if count h - 1 < min_count_of (size_in_groups h) \<and> MIN_SIZE < size_in_groups h
       then size_in_groups h div 2 else size_in_groups h) \<and>
    (load_ok h \<longrightarrow> load_ok h')"
  using wf er
proof (cases rule: h64_erase_cases)
  case Absent
  with ret show ?thesis
    by simp
next
  case (Present n idx h1)
  have h1: "count h1 = count h - 1" "size_in_groups h1 = size_in_groups h"
    by (simp_all add: Present(7))
  show ?thesis
  proof (cases "h64_should_grow_down h1")
    case False
    with Present(9) have "h' = h1"
      by simp
    with False h1 show ?thesis
      by (auto simp add: h64_should_grow_down_iff load_ok_def)
  next
    case True
    with Present(9) have "h64_resize w h1 (size_in_groups h1 div 2) = Some (Inr (w', h'))"
      by (simp add: h64_grow_down_def)
    note r = h64_resize_load [OF Present(8) this]
    from True have small: "count h1 < min_count_of (size_in_groups h1)" "MIN_SIZE < size_in_groups h1"
      by (simp_all add: h64_should_grow_down_iff)
    note half = half_size [OF Present(8) small(2)]
    from small(1) half(1) have "count h1 \<le> max_count_of (size_in_groups h1 div 2) + 1"
      by simp
    with r half(2) have "size_in_groups h' = size_in_groups h1 div 2"
      by simp
    with r small h1 show ?thesis
      by simp
  qed
qed

lemma reachable_load: "reachable h \<Longrightarrow> load_ok h"
proof (induction rule: reachable.induct)
  case (create w hf ef w' h)
  from h64_create_wf [OF this] show ?case
    by (simp add: load_ok_def)
next
  case (insert h e w w' h')
  note wf = h64_ok_returns(1) [OF reachable_ok [OF insert(1)] insert(3)]
  from h64_insert_load [OF wf insert(2) insert(4) insert(3)] show ?case
    by simp
next
  case (insert_new h e w w' h')
  note wf = h64_ok_returns(2) [OF reachable_ok [OF insert_new(1)] insert_new(3)]
  from h64_insert_new_load [OF wf insert_new(2) insert_new(4) insert_new(3)]
  show ?case
    by simp
next
  case (erase h w e w' h' ret)
  note wf = h64_ok_returns(3) [OF reachable_ok [OF erase(1)] erase(2)]
  show ?case
  proof (cases "ret = NULL")
    case True
    with h64_erase_wf [OF wf erase(2)] erase(3) show ?thesis
      by auto
  next
    case False
    from h64_erase_load [OF wf erase(2) False] erase(3) show ?thesis
      by simp
  qed
next
  case (reserve h w n w' h')
  note wf = h64_ok_returns(4) [OF reachable_ok [OF reserve(1)] reserve(2)]
  from h64_reserve_load [OF wf reserve(2)] show ?case .
qed

lemma count_bounds_of_size:
  assumes "h64_wf h"
  shows "max_count_of (size_in_groups h) = 5280470563091907 * size_in_groups h div 2 ^ 50"
    and "min_count_of (size_in_groups h) = 5280470563091907 * size_in_groups h div 2 ^ 52"
proof -
  from assms obtain k where k: "size_in_groups h = 2 ^ k" "k < 58"
    by (auto simp add: h64_wf_def)
  show "max_count_of (size_in_groups h) = 5280470563091907 * size_in_groups h div 2 ^ 50"
    unfolding k(1) by (rule max_count_of_power) (use k(2) in simp)
  show "min_count_of (size_in_groups h) = 5280470563091907 * size_in_groups h div 2 ^ 52"
    unfolding k(1) by (rule min_count_of_power) (use k(2) in simp)
qed

lemma ex_table_19_reachable: "reachable ex_table_19"
  using ex_empty_table_reachable ex_table_19_calls by (rule h64_calls_reachable) (simp add: NULL_def)

lemma ex_table_10_reachable: "reachable ex_table_10"
  using ex_empty_table_reachable ex_table_10_calls by (rule h64_calls_reachable) (simp add: NULL_def)

lemma ex_table_9_reachable: "reachable ex_table_9"
  using ex_table_10_reachable ex_table_10_erase by (rule reachable.erase)


section \<open>C1: the bounds on the count\<close>

text \<open>
  Claim C1, amended. A reachable table holds at most \<^verbatim>\<open>max_count + 1\<close> entries, where
  \<^verbatim>\<open>max_count\<close> is the product \<^verbatim>\<open>0.67 * (size_in_groups * 7)\<close> in double arithmetic,
  truncated; in a table of fewer than \<open>2 ^ 58\<close> groups, whose \<^verbatim>\<open>size_in_groups * 7\<close> does not
  wrap, that is \<open>5280470563091907 * size_in_groups div 2 ^ 50\<close>. After an erase that removed
  an entry and left a size above 4 as it was, the count is at least \<^verbatim>\<open>min_count\<close>, the
  truncated product \<open>5280470563091907 * size_in_groups div 2 ^ 52\<close>. The claim's bounds
  \<open>count \<le> 0.67 * size_in_groups * 7\<close> and \<open>count \<ge> 0.1675 * size_in_groups * 7\<close> fail: 19
  inserts into a new table give count 19 with 4 groups, above 18.76, and an erase that
  leaves 9 entries in 8 groups does not shrink the table, with 9 below 9.38.
\<close>

theorem load_bounds:
  "(reachable h \<longrightarrow>
      count h \<le> max_count_of (size_in_groups h) + 1 \<and>
      (size_in_groups h < 2 ^ 58 \<longrightarrow>
         max_count_of (size_in_groups h) = 5280470563091907 * size_in_groups h div 2 ^ 50)) \<and>
   (reachable t \<and> h64_erase w t e = Some (Inr (w', t', ret)) \<and> ret \<noteq> NULL \<and>
    size_in_groups t' = size_in_groups t \<and> MIN_SIZE < size_in_groups t \<longrightarrow>
      min_count_of (size_in_groups t') \<le> count t' \<and>
      min_count_of (size_in_groups t') = 5280470563091907 * size_in_groups t' div 2 ^ 52)"
proof (intro conjI impI)
  assume "reachable h"
  then show "count h \<le> max_count_of (size_in_groups h) + 1"
    using reachable_load [of h] by (simp add: load_ok_def)
  assume "size_in_groups h < 2 ^ 58"
  with \<open>reachable h\<close> have "h64_wf h"
    by (rule reachable_small)
  then show "max_count_of (size_in_groups h) = 5280470563091907 * size_in_groups h div 2 ^ 50"
    by (rule count_bounds_of_size)
next
  assume a: "reachable t \<and> h64_erase w t e = Some (Inr (w', t', ret)) \<and> ret \<noteq> NULL \<and>
    size_in_groups t' = size_in_groups t \<and> MIN_SIZE < size_in_groups t"
  then have t: "reachable t" and er: "h64_erase w t e = Some (Inr (w', t', ret))" and ret: "ret \<noteq> NULL"
    and same: "size_in_groups t' = size_in_groups t" and big: "MIN_SIZE < size_in_groups t"
    by simp_all
  note wf = h64_ok_returns(3) [OF reachable_ok [OF t] er]
  note r = h64_erase_load [OF wf er ret]
  have "\<not> count t - 1 < min_count_of (size_in_groups t)"
  proof
    assume "count t - 1 < min_count_of (size_in_groups t)"
    with r big have "size_in_groups t' = size_in_groups t div 2"
      by simp
    with same big show False
      by (simp add: MIN_SIZE_def DEFAULT_SIZE_def)
  qed
  with r same show "min_count_of (size_in_groups t') \<le> count t'"
    by simp
  from count_bounds_of_size(2) [OF wf] same
  show "min_count_of (size_in_groups t') = 5280470563091907 * size_in_groups t' div 2 ^ 52"
    by simp
qed

theorem load_bounds_witness:
  "reachable ex_table_19 \<and> count ex_table_19 = 19 \<and> max_count_of (size_in_groups ex_table_19) = 18 \<and>
   reachable ex_table_10 \<and> h64_erase [] ex_table_10 0xA0 = Some (Inr ([], ex_table_9, 0xA0)) \<and>
   size_in_groups ex_table_9 = 8 \<and> count ex_table_9 = 9 \<and> min_count_of (size_in_groups ex_table_9) = 9"
  using load_bounds [where h = ex_table_19 and t = ex_table_10 and w = "[]" and e = "0xA0"
      and w' = "[]" and t' = ex_table_9 and ret = "0xA0"]
    ex_table_19_reachable ex_table_10_reachable ex_table_10_erase
  by (simp add: ex_table_19_def ex_table_10_def ex_table_9_def MIN_SIZE_def DEFAULT_SIZE_def NULL_def)

theorem load_bounds_counterexample:
  "reachable ex_table_19 \<and> size_in_groups ex_table_19 = 4 \<and> count ex_table_19 = 19 \<and>
   67 * (size_in_groups ex_table_19 * 7) < 100 * count ex_table_19 \<and>
   reachable ex_table_10 \<and> h64_erase [] ex_table_10 0xA0 = Some (Inr ([], ex_table_9, 0xA0)) \<and>
   4 < size_in_groups ex_table_9 \<and>
   10000 * count ex_table_9 < 1675 * (size_in_groups ex_table_9 * 7)"
  using ex_table_19_reachable ex_table_10_reachable ex_table_10_erase
  by (simp add: ex_table_19_def ex_table_9_def)


section \<open>C8: the shrink check of an erase\<close>

text \<open>
  Claim C8, amended. An erase that removed an entry from a reachable table halves
  \<^verbatim>\<open>size_in_groups\<close> exactly when the new count is below \<^verbatim>\<open>min_count\<close>, the product
  \<^verbatim>\<open>MIN_LOAD_FACTOR * (size_in_groups * 7)\<close> truncated to an integer, and \<^verbatim>\<open>size_in_groups\<close>
  is above 4; otherwise the size is unchanged. The comparison with the product itself,
  as the claim has it, fails: with 8 groups the product is 9.38, and an erase that leaves
  9 entries keeps the 8 groups, since \<^verbatim>\<open>min_count\<close> is 9.
\<close>

theorem erase_shrink_check:
  assumes "reachable h" and "h64_erase w h e = Some (Inr (w', h', ret))" and "ret \<noteq> NULL"
  shows "count h' = count h - 1 \<and>
    size_in_groups h' =
      (if count h - 1 < min_count_of (size_in_groups h) \<and> MIN_SIZE < size_in_groups h
       then size_in_groups h div 2 else size_in_groups h) \<and>
    min_count_of (size_in_groups h) = 5280470563091907 * size_in_groups h div 2 ^ 52"
proof -
  note wf = h64_ok_returns(3) [OF reachable_ok [OF assms(1)] assms(2)]
  from h64_erase_load [OF wf assms(2,3)] count_bounds_of_size(2) [OF wf] show ?thesis
    by simp
qed

theorem erase_shrink_check_witness:
  "reachable ex_table_9 \<and> h64_erase [0x4000] ex_table_9 0x90 = Some (Inr ([], ex_table_8, 0x90)) \<and>
   count ex_table_9 = 9 \<and> size_in_groups ex_table_9 = 8 \<and> min_count_of (size_in_groups ex_table_9) = 9 \<and>
   count ex_table_8 = 8 \<and> size_in_groups ex_table_8 = 4"
  using erase_shrink_check [OF ex_table_9_reachable ex_table_9_erase] ex_table_9_reachable ex_table_9_erase
  by (simp add: ex_table_9_def ex_table_8_def NULL_def)

theorem erase_shrink_check_counterexample:
  "reachable ex_table_10 \<and> h64_erase [] ex_table_10 0xA0 = Some (Inr ([], ex_table_9, 0xA0)) \<and>
   count ex_table_9 = count ex_table_10 - 1 \<and>
   10000 * count ex_table_9 < 1675 * (size_in_groups ex_table_10 * 7) \<and>
   MIN_SIZE < size_in_groups ex_table_10 \<and>
   size_in_groups ex_table_9 = size_in_groups ex_table_10"
  using ex_table_10_reachable ex_table_10_erase
  by (simp add: ex_table_10_def ex_table_9_def MIN_SIZE_def DEFAULT_SIZE_def)

section \<open>The probe path of a stored entry\<close>




lemma probe_update [simp]:
  "probe (h\<lparr>groups := gs\<rparr>) = probe h"
  "probe (h\<lparr>count := c\<rparr>) = probe h"
  by (simp_all add: probe_def fun_eq_iff)















lemma match_loop_eq_Some:
  assumes "bit mb idx" and "h64_equals h e (es ! idx)"
    and "\<forall>j<idx. bit mb j \<longrightarrow> \<not> h64_equals h e (es ! j)"
  shows "match_loop h e es mb = Some idx"
proof (cases "match_loop h e es mb")
  case None
  with assms(1,2) show ?thesis
    by (simp add: match_loop_None)
next
  case (Some idx')
  note s = match_loop_Some [OF Some]
  have "\<not> idx' < idx"
    using s assms(3) by blast
  moreover have "\<not> idx < idx'"
    using s assms(1,2) by blast
  ultimately show ?thesis
    using Some by simp
qed





lemma match_loop_cong:
  assumes "h64_equals h' = h64_equals h"
  shows "match_loop h' e es mb = match_loop h e es mb"
proof (cases "match_loop h e es mb")
  case None
  then have "\<forall>j. bit mb j \<longrightarrow> \<not> h64_equals h' e (es ! j)"
    by (simp add: match_loop_None assms)
  then have "match_loop h' e es mb = None"
    by (simp add: match_loop_None)
  with None show ?thesis
    by simp
next
  case (Some idx)
  from match_loop_Some [OF Some] have "match_loop h' e es mb = Some idx"
    by (intro match_loop_eq_Some) (simp_all add: assms)
  with Some show ?thesis
    by simp
qed

lemma group_candidate_update [simp]:
  "group_candidate (h\<lparr>groups := gs\<rparr>) = group_candidate h"
proof (intro ext)
  fix e hint g
  have "match_loop (h\<lparr>groups := gs\<rparr>) e (entries g) (group_match_inserted g hint) =
    match_loop h e (entries g) (group_match_inserted g hint)"
    by (rule match_loop_cong) simp
  then show "group_candidate (h\<lparr>groups := gs\<rparr>) e hint g = group_candidate h e hint g"
    by (simp only: group_candidate_def)
qed






section \<open>C5: find after insert\<close>




section \<open>C7: insert of an element that is stored\<close>









section \<open>Inserts into a table that has room\<close>











section \<open>The size that \<^verbatim>\<open>h64_reserve\<close> asks for\<close>





















section \<open>C9: reserve and the inserts that follow\<close>















end
